theory Spec2Isabelle
  imports Complex_Main "HOL-Library.Multiset" "HOL-Library.List_Lexorder" "HOL-Library.Char_ord"
    "HOL-Library.Product_Lexorder"
begin

section \<open>Data model of the heuristic variant path generator\<close>

text \<open>
  The development embeds \<^verbatim>\<open>src/traversome/PathGenerator.py\<close>. Python floats are
  idealised as real numbers; the two special values the code produces on purpose
  (\<^verbatim>\<open>-inf\<close> for the likelihood of a contig that is not yet in the path, and what
  IEEE arithmetic derives from it) are kept explicit in the type \<open>pyfloat\<close>.
  Exceptions are values of the type \<open>py_error\<close>; a function that can raise returns
  \<open>py_error + 'a\<close>.
\<close>

datatype py_error =
    AssertionError
  | PathException
  | KeyError
  | IndexError
  | ZeroDivisionError
  | ValueError

type_synonym vname = string

text \<open>An oriented contig reference \<^verbatim>\<open>(v_name, v_end)\<close> and a path of them.\<close>

type_synonym vne = "vname \<times> bool"
type_synonym path = "vne list"

text \<open>
  A vertex of the assembly graph as the generator reads it:
  \<^verbatim>\<open>vertex_info[v].len\<close>, \<^verbatim>\<open>.cov\<close> and \<^verbatim>\<open>.connections[end]\<close>.
\<close>

record vertex =
  len :: nat
  cov :: real
  connections :: "bool \<Rightarrow> vne list"

text \<open>
  \<^verbatim>\<open>graph.vertex_info\<close> is an ordered dictionary: an association list, read with
  \<open>map_of\<close>.
\<close>

type_synonym vertex_info = "(vname \<times> vertex) list"

text \<open>A record of the alignment file: its path and \<^verbatim>\<open>p_align_len\<close>.\<close>

record gaf_record =
  gaf_path :: path
  p_align_len :: int

text \<open>
  The object \<^verbatim>\<open>self\<close> of \<^verbatim>\<open>PathGenerator\<close>: the configuration stored by
  \<^verbatim>\<open>__init__\<close> and the fields that are generated later.
\<close>

record generator =
  vertex_info :: vertex_info
  alignment :: "gaf_record list"
  num_search :: int
  num_processes :: int
  force_circular :: bool
  hetero_chromosome :: bool
  differ_f :: real
  decay_f :: real
  decay_t :: int
  cov_inert :: real
  use_alignment_cov :: bool
  min_unit_similarity :: real
  local_max_alignment_len :: "int option"
  read_paths :: "path list"
  read_paths_counter :: "path \<rightharpoonup> nat"
  starting_subpath_to_readpaths :: "path \<rightharpoonup> (nat \<times> bool) set"
  middle_subpath_to_readpaths :: "path \<rightharpoonup> (nat \<times> bool) set"
  read_paths_counter_indexed :: bool
  contig_coverages :: "(vname \<times> real) list"
  candidate_single_copy_vs :: "vname set"
  variants :: "path list"
  variants_counts :: "path \<rightharpoonup> nat"

section \<open>Construction\<close>

text \<open>
  \<^verbatim>\<open>PathGenerator.__init__\<close> (lines 27-101): six assertions, in the source's order,
  then the fields are stored. \<^verbatim>\<open>num_search\<close>, the three flags and the upper end of
  \<^verbatim>\<open>min_unit_similarity\<close> are stored as given.
\<close>

definition PathGenerator_init ::
  "vertex_info \<Rightarrow> gaf_record list \<Rightarrow> int \<Rightarrow> int \<Rightarrow> bool \<Rightarrow> bool \<Rightarrow> real \<Rightarrow> real \<Rightarrow> int \<Rightarrow> real
     \<Rightarrow> bool \<Rightarrow> real \<Rightarrow> py_error + generator" where
  "PathGenerator_init vi al n_search n_proc f_circ hetero differ decay decay_thr inert use_al min_sim =
     (if \<not> 1 \<le> n_proc then Inl AssertionError
      else if \<not> 0 \<le> differ then Inl AssertionError
      else if \<not> 0 \<le> decay then Inl AssertionError
      else if \<not> 100 \<le> decay_thr then Inl AssertionError
      else if \<not> 0 \<le> inert then Inl AssertionError
      else if \<not> 0.5 \<le> min_sim then Inl AssertionError
      else Inr \<lparr> vertex_info = vi, alignment = al, num_search = n_search,
        num_processes = n_proc, force_circular = f_circ, hetero_chromosome = hetero,
        differ_f = differ, decay_f = decay, decay_t = decay_thr, cov_inert = inert,
        use_alignment_cov = use_al, min_unit_similarity = min_sim,
        local_max_alignment_len = None, read_paths = [], read_paths_counter = Map.empty,
        starting_subpath_to_readpaths = Map.empty, middle_subpath_to_readpaths = Map.empty,
        read_paths_counter_indexed = False, contig_coverages = [],
        candidate_single_copy_vs = {}, variants = [], variants_counts = Map.empty \<rparr>)"

section \<open>Coverage model\<close>

text \<open>
  \<^verbatim>\<open>__check_path\<close> (lines 1048-1056): the path is not empty and every contig is a
  vertex of the graph.
\<close>

definition check_path :: "generator \<Rightarrow> path \<Rightarrow> py_error + unit" where
  "check_path g p =
     (if p = [] then Inl AssertionError
      else if \<exists>v \<in> set (map fst p). map_of (vertex_info g) v = None then Inl PathException
      else Inr ())"

text \<open>
  \<^verbatim>\<open>{v_n: v_names.count(v_n) for v_n in set(v_names)}\<close>: the contigs of a path with
  their numbers of occurrences. Python iterates a set in an order of its own; the
  model fixes one order, each contig once.
\<close>

definition name_counts :: "path \<Rightarrow> (vname \<times> nat) list" where
  "name_counts p =
     (let names = map fst p in map (\<lambda>v. (v, count_list names v)) (remdups names))"

text \<open>
  One round of the loop over \<^verbatim>\<open>del_names\<close> (lines 1092-1098): when more occurrences
  are to be excluded than the path has, the code logs an error and leaves the count as
  it is; otherwise it subtracts, and deletes an entry that reaches zero.
\<close>

definition exclude_one :: "(vname \<times> nat) list \<Rightarrow> vname \<times> nat \<Rightarrow> (vname \<times> nat) list" where
  "exclude_one v_names dn =
     (case dn of (del_n, del_c) \<Rightarrow>
        if del_c > (case map_of v_names del_n of None \<Rightarrow> 0 | Some c \<Rightarrow> c) then v_names
        else filter (\<lambda>(v, c). \<not> (v = del_n \<and> c = 0))
               (map (\<lambda>(v, c). if v = del_n then (v, c - del_c) else (v, c)) v_names))"

definition exclude_names :: "(vname \<times> nat) list \<Rightarrow> path \<Rightarrow> (vname \<times> nat) list" where
  "exclude_names v_names exclude_path = foldl exclude_one v_names (name_counts exclude_path)"

text \<open>
  \<^verbatim>\<open>np.average(a, weights=w)\<close>: numpy raises \<^verbatim>\<open>ZeroDivisionError\<close> when the weights
  sum to zero (also for empty lists).
\<close>

definition np_average :: "real list \<Rightarrow> nat list \<Rightarrow> py_error + real" where
  "np_average a w =
     (if sum_list w = 0 then Inl ZeroDivisionError
      else Inr (sum_list (map (\<lambda>(x, y). x * real y) (zip a w)) / real (sum_list w)))"

text \<open>
  The list comprehension over \<^verbatim>\<open>v_names\<close> (lines 1099-1103): the per-copy coverage
  and the weight of every remaining contig; \<^verbatim>\<open>contig_coverages[v_name]\<close> raises
  \<^verbatim>\<open>KeyError\<close> for a contig without a coverage, \<^verbatim>\<open>vertex_info[v_name]\<close> likewise.
\<close>

fun covers_and_lengths ::
  "generator \<Rightarrow> (vname \<times> nat) list \<Rightarrow> py_error + (real list \<times> nat list)" where
  "covers_and_lengths g [] = Inr ([], [])"
| "covers_and_lengths g ((v, c) # rest) =
     (case map_of (contig_coverages g) v of
        None \<Rightarrow> Inl KeyError
      | Some cv \<Rightarrow>
         (case map_of (vertex_info g) v of
            None \<Rightarrow> Inl KeyError
          | Some vx \<Rightarrow>
             (case covers_and_lengths g rest of
                Inl e \<Rightarrow> Inl e
              | Inr (cs, ls) \<Rightarrow> Inr ((cv / real c) # cs, (len vx * c) # ls))))"

text \<open>
  The end of \<^verbatim>\<open>__get_cov_mean\<close> and of \<^verbatim>\<open>__get_cov_mean_of_single\<close>: the weighted
  mean, and the weighted standard deviation, which is a tenth of the mean when there
  is one value only.
\<close>

definition mean_and_std :: "real list \<Rightarrow> nat list \<Rightarrow> py_error + (real \<times> real)" where
  "mean_and_std v_covers v_lengths =
     (case np_average v_covers v_lengths of
        Inl e \<Rightarrow> Inl e
      | Inr mean \<Rightarrow>
          if length v_covers > 1 then
            (case np_average (map (\<lambda>x. (x - mean) ^ 2) v_covers) v_lengths of
               Inl e \<Rightarrow> Inl e
             | Inr var \<Rightarrow> Inr (mean, sqrt var))
          else Inr (mean, mean * 0.1))"

text \<open>
  \<^verbatim>\<open>__get_cov_mean(path, exclude_path, return_std=True)\<close> (lines 1085-1115).
  \<^verbatim>\<open>exclude_path\<close> is \<open>None\<close> or a path; an empty one is skipped by
  \<^verbatim>\<open>if exclude_path:\<close> like \<open>None\<close>.
\<close>

definition get_cov_mean_std :: "generator \<Rightarrow> path \<Rightarrow> path option \<Rightarrow> py_error + (real \<times> real)" where
  "get_cov_mean_std g p exclude_path =
     (case check_path g p of
        Inl e \<Rightarrow> Inl e
      | Inr _ \<Rightarrow>
         (let v_names = name_counts p;
              v_names' = (case exclude_path of
                            None \<Rightarrow> v_names
                          | Some ep \<Rightarrow> if ep = [] then v_names else exclude_names v_names ep)
          in case covers_and_lengths g v_names' of
               Inl e \<Rightarrow> Inl e
             | Inr (cs, ls) \<Rightarrow> mean_and_std cs ls))"

text \<open>The same call with \<^verbatim>\<open>return_std=False\<close>: the mean alone.\<close>

definition get_cov_mean :: "generator \<Rightarrow> path \<Rightarrow> path option \<Rightarrow> py_error + real" where
  "get_cov_mean g p exclude_path = map_sum id fst (get_cov_mean_std g p exclude_path)"

text \<open>
  \<^verbatim>\<open>use_contig_coverage_from_assembly_graph\<close> (lines 192-194): the coverage of every
  vertex, as the graph has it.
\<close>

definition use_contig_coverage_from_assembly_graph :: "generator \<Rightarrow> generator" where
  "use_contig_coverage_from_assembly_graph g =
     g\<lparr>contig_coverages := map (\<lambda>(v_name, vx). (v_name, cov vx)) (vertex_info g)\<rparr>"

section \<open>The coverage mean, as the specification words it\<close>

text \<open>
  The specification describes \<^verbatim>\<open>meanCoverage\<close> as the length-weighted average of the
  per-copy coverages of the contigs of a path, after the occurrences of an excluded
  path are subtracted. The definitions of this section say that with sums over the set
  of contigs; the properties below compare them with \<open>get_cov_mean\<close>.
  \<open>cov_of\<close> and \<open>len_of\<close> read the coverage and the length of a contig.
\<close>

definition cov_of :: "generator \<Rightarrow> vname \<Rightarrow> real" where
  "cov_of g v = (case map_of (contig_coverages g) v of None \<Rightarrow> 0 | Some c \<Rightarrow> c)"

definition len_of :: "generator \<Rightarrow> vname \<Rightarrow> nat" where
  "len_of g v = (case map_of (vertex_info g) v of None \<Rightarrow> 0 | Some vx \<Rightarrow> len vx)"

text \<open>
  The occurrences of a contig that remain: the count in the path, less the count in
  the excluded path unless that is the larger one (the source then leaves the count
  as it is).
\<close>

definition remaining_count :: "path \<Rightarrow> path option \<Rightarrow> vname \<Rightarrow> nat" where
  "remaining_count p exclude_path v =
     (let c = count_list (map fst p) v;
          d = (case exclude_path of None \<Rightarrow> 0 | Some ep \<Rightarrow> count_list (map fst ep) v)
      in if d > c then c else c - d)"

definition remaining_names :: "path \<Rightarrow> path option \<Rightarrow> vname set" where
  "remaining_names p exclude_path = {v \<in> set (map fst p). remaining_count p exclude_path v \<noteq> 0}"

text \<open>The sum of the weights, and the weighted mean of the per-copy coverages.\<close>

definition total_weight :: "generator \<Rightarrow> (vname \<Rightarrow> nat) \<Rightarrow> vname set \<Rightarrow> nat" where
  "total_weight g cnt S = (\<Sum>v\<in>S. len_of g v * cnt v)"

definition weighted_mean :: "generator \<Rightarrow> (vname \<Rightarrow> nat) \<Rightarrow> vname set \<Rightarrow> real" where
  "weighted_mean g cnt S =
     (\<Sum>v\<in>S. cov_of g v / real (cnt v) * real (len_of g v * cnt v)) / real (total_weight g cnt S)"

text \<open>
  Auxiliary notions for the proofs: the dictionary \<^verbatim>\<open>v_names\<close> after the exclusion
  loop, the effect of the whole loop on one count, and the entries that are kept.
\<close>

definition v_names_after :: "path \<Rightarrow> path option \<Rightarrow> (vname \<times> nat) list" where
  "v_names_after p exclude_path =
     (case exclude_path of
        None \<Rightarrow> name_counts p
      | Some ep \<Rightarrow> if ep = [] then name_counts p else exclude_names (name_counts p) ep)"

definition adjust_count :: "(vname \<times> nat) list \<Rightarrow> vname \<Rightarrow> nat \<Rightarrow> nat" where
  "adjust_count ds v c = (case map_of ds v of None \<Rightarrow> c | Some d \<Rightarrow> if d > c then c else c - d)"

definition nonzero_entry :: "vname \<times> nat \<Rightarrow> bool" where
  "nonzero_entry vc = (snd vc \<noteq> 0)"

section \<open>Example graphs\<close>

text \<open>
  A generator with the default configuration of \<^verbatim>\<open>__init__\<close> over a given graph,
  with the coverages taken from the graph.
\<close>

definition default_generator :: "vertex_info \<Rightarrow> generator" where
  "default_generator vi =
     use_contig_coverage_from_assembly_graph
       \<lparr> vertex_info = vi, alignment = [], num_search = 1000,
         num_processes = 1, force_circular = True, hetero_chromosome = True,
         differ_f = 1, decay_f = 20, decay_t = 1000, cov_inert = 1,
         use_alignment_cov = False, min_unit_similarity = 0.85,
         local_max_alignment_len = None, read_paths = [], read_paths_counter = Map.empty,
         starting_subpath_to_readpaths = Map.empty, middle_subpath_to_readpaths = Map.empty,
         read_paths_counter_indexed = False, contig_coverages = [],
         candidate_single_copy_vs = {}, variants = [], variants_counts = Map.empty \<rparr>"

text \<open>Two contigs: \<open>a\<close> of length 100 and coverage 10, \<open>b\<close> of length 50 and coverage 20.\<close>

definition graph_ab :: vertex_info where
  "graph_ab =
     [(''a'', \<lparr>len = 100, cov = 10, connections = (\<lambda>e. [])\<rparr>),
      (''b'', \<lparr>len = 50, cov = 20, connections = (\<lambda>e. [])\<rparr>)]"

section \<open>Floating-point values\<close>

text \<open>
  A Python or numpy float: a finite value (idealised as a real number), the two
  infinities, or not-a-number. The operations follow IEEE 754 on the special values.
\<close>

datatype pyfloat = Fin real | PInf | NInf | NaN

fun fl_neg :: "pyfloat \<Rightarrow> pyfloat" where
  "fl_neg (Fin a) = Fin (- a)"
| "fl_neg PInf = NInf"
| "fl_neg NInf = PInf"
| "fl_neg NaN = NaN"

fun fl_add :: "pyfloat \<Rightarrow> pyfloat \<Rightarrow> pyfloat" where
  "fl_add (Fin a) (Fin b) = Fin (a + b)"
| "fl_add NaN y = NaN"
| "fl_add x NaN = NaN"
| "fl_add PInf NInf = NaN"
| "fl_add NInf PInf = NaN"
| "fl_add PInf y = PInf"
| "fl_add x PInf = PInf"
| "fl_add NInf y = NInf"
| "fl_add x NInf = NInf"

definition fl_sub :: "pyfloat \<Rightarrow> pyfloat \<Rightarrow> pyfloat" where
  "fl_sub x y = fl_add x (fl_neg y)"

text \<open>The product with a contig length, a non-negative integer.\<close>

fun fl_mul_nat :: "pyfloat \<Rightarrow> nat \<Rightarrow> pyfloat" where
  "fl_mul_nat (Fin a) n = Fin (a * real n)"
| "fl_mul_nat PInf n = (if n = 0 then NaN else PInf)"
| "fl_mul_nat NInf n = (if n = 0 then NaN else NInf)"
| "fl_mul_nat NaN n = NaN"

text \<open>Comparisons: every comparison with not-a-number is false.\<close>

fun fl_less :: "pyfloat \<Rightarrow> pyfloat \<Rightarrow> bool" where
  "fl_less NaN y = False"
| "fl_less x NaN = False"
| "fl_less (Fin a) (Fin b) = (a < b)"
| "fl_less x NInf = False"
| "fl_less NInf y = True"
| "fl_less PInf y = False"
| "fl_less x PInf = True"

fun fl_le :: "pyfloat \<Rightarrow> pyfloat \<Rightarrow> bool" where
  "fl_le NaN y = False"
| "fl_le x NaN = False"
| "fl_le (Fin a) (Fin b) = (a \<le> b)"
| "fl_le NInf y = True"
| "fl_le x PInf = True"
| "fl_le PInf y = False"
| "fl_le x NInf = False"

text \<open>
  The quotient of two numpy floats: a division by zero gives an infinity or
  not-a-number and raises nothing.
\<close>

fun fl_div :: "pyfloat \<Rightarrow> pyfloat \<Rightarrow> pyfloat" where
  "fl_div NaN y = NaN"
| "fl_div x NaN = NaN"
| "fl_div (Fin a) (Fin b) =
     (if b \<noteq> 0 then Fin (a / b) else if a > 0 then PInf else if a < 0 then NInf else NaN)"
| "fl_div (Fin a) PInf = Fin 0"
| "fl_div (Fin a) NInf = Fin 0"
| "fl_div PInf (Fin b) = (if b < 0 then NInf else PInf)"
| "fl_div NInf (Fin b) = (if b < 0 then PInf else NInf)"
| "fl_div PInf y = NaN"
| "fl_div NInf y = NaN"

fun fl_exp :: "pyfloat \<Rightarrow> pyfloat" where
  "fl_exp (Fin a) = Fin (exp a)"
| "fl_exp PInf = PInf"
| "fl_exp NInf = Fin 0"
| "fl_exp NaN = NaN"

text \<open>
  \<^verbatim>\<open>min(0, x)\<close> of Python: \<open>x\<close> when \<open>x < 0\<close> holds, else the integer \<open>0\<close>
  (also for not-a-number).
\<close>

definition py_min0 :: "pyfloat \<Rightarrow> pyfloat" where
  "py_min0 x = (if fl_less x (Fin 0) then x else Fin 0)"

text \<open>
  \<^verbatim>\<open>scipy.stats.norm.logpdf(x, loc, scale)\<close>: the logarithm of the normal density;
  not-a-number when the scale is not positive.
\<close>

definition norm_logpdf :: "real \<Rightarrow> real \<Rightarrow> real \<Rightarrow> pyfloat" where
  "norm_logpdf x loc scale =
     (if scale > 0 then Fin (- (((x - loc) / scale) ^ 2) / 2 - ln (sqrt (2 * pi)) - ln scale)
      else NaN)"

section \<open>Coverage of the likely single-copy contigs\<close>

text \<open>
  The loop of \<^verbatim>\<open>__get_cov_mean_of_single\<close> (lines 1070-1074): the coverage and the
  length of every chosen contig.
\<close>

fun single_covers_and_lengths :: "generator \<Rightarrow> vname list \<Rightarrow> py_error + (real list \<times> nat list)" where
  "single_covers_and_lengths g [] = Inr ([], [])"
| "single_covers_and_lengths g (v # rest) =
     (case map_of (contig_coverages g) v of
        None \<Rightarrow> Inl KeyError
      | Some cv \<Rightarrow>
         (case map_of (vertex_info g) v of
            None \<Rightarrow> Inl KeyError
          | Some vx \<Rightarrow>
             (case single_covers_and_lengths g rest of
                Inl e \<Rightarrow> Inl e
              | Inr (cs, ls) \<Rightarrow> Inr (cv # cs, len vx # ls))))"

text \<open>
  \<^verbatim>\<open>__get_cov_mean_of_single(path, return_std=True)\<close> (lines 1058-1083): the contigs
  with the least number of occurrences, restricted to the candidate single-copy
  contigs when some of them are candidates.
\<close>

definition get_cov_mean_of_single_std :: "generator \<Rightarrow> path \<Rightarrow> py_error + (real \<times> real)" where
  "get_cov_mean_of_single_std g p =
     (case check_path g p of
        Inl e \<Rightarrow> Inl e
      | Inr _ \<Rightarrow>
         (let v_names = name_counts p;
              min_cov = Min (set (map snd v_names));
              names = map fst (filter (\<lambda>(v_n, v_c). v_c = min_cov) v_names);
              single_copy_likely = filter (\<lambda>v. v \<in> candidate_single_copy_vs g) names;
              names' = (if single_copy_likely \<noteq> [] then sort single_copy_likely else names)
          in case single_covers_and_lengths g names' of
               Inl e \<Rightarrow> Inl e
             | Inr (cs, ls) \<Rightarrow> mean_and_std cs ls))"

section \<open>Multiplicity likelihood evaluator\<close>

text \<open>Python's truth value of an optional number: \<open>None\<close> and zero are false.\<close>

definition truthy :: "real option \<Rightarrow> bool" where
  "truthy x = (case x of None \<Rightarrow> False | Some r \<Rightarrow> r \<noteq> 0)"

text \<open>
  \<^verbatim>\<open>{v_n: current_vs.count(v_n) for v_n in set(...)}\<close>: the occurrences in the path of
  the contigs of the proposed extension.
\<close>

definition counts_in_path :: "path \<Rightarrow> path \<Rightarrow> (vname \<times> nat) list" where
  "counts_in_path p proposed_extension =
     map (\<lambda>v_n. (v_n, count_list (map fst p) v_n)) (remdups (map fst proposed_extension))"

text \<open>
  The main loop of \<^verbatim>\<open>__cal_multiplicity_like\<close> (lines 887-924), one round per contig
  of the proposed extension. \<open>llr\<close> is \<^verbatim>\<open>log_like_ratio\<close>; the result is
  \<^verbatim>\<open>log_like_ratio_list\<close>. The count \<^verbatim>\<open>current_c\<close> is read from the dictionary that
  was made before the loop. The mean of the extended path is computed in every round
  (it can raise) and its value is not used. \<^verbatim>\<open>_old_like_cache\<close> only avoids
  computing the same value twice and is left out.
\<close>

fun cal_loop ::
  "generator \<Rightarrow> (vname \<times> nat) list \<Rightarrow> real \<Rightarrow> real \<Rightarrow> path \<Rightarrow> pyfloat \<Rightarrow> path \<Rightarrow> py_error + pyfloat list" where
  "cal_loop g current_v_counts single_cov_mean single_cov_std p llr [] = Inr []"
| "cal_loop g current_v_counts single_cov_mean single_cov_std p llr ((v_name, v_end) # rest) =
     (case map_of current_v_counts v_name of
        None \<Rightarrow> Inl KeyError
      | Some current_c \<Rightarrow>
         (case (if current_c \<noteq> 0
                then (case map_of (contig_coverages g) v_name of
                        None \<Rightarrow> Inl KeyError
                      | Some cv \<Rightarrow>
                          Inr (norm_logpdf (cv / real current_c) single_cov_mean single_cov_std,
                               norm_logpdf (cv / real (current_c + 1)) single_cov_mean single_cov_std))
                else Inr (NInf, Fin 0)) of
            Inl e \<Rightarrow> Inl e
          | Inr (old_like, new_like) \<Rightarrow>
             (case get_cov_mean_std g (p @ [(v_name, v_end)]) None of
                Inl e \<Rightarrow> Inl e
              | Inr new_cov \<Rightarrow>
                 (let llr' = py_min0
                       (fl_add llr (fl_mul_nat (fl_sub new_like old_like) (len_of g v_name)))
                  in case cal_loop g current_v_counts single_cov_mean single_cov_std
                            (p @ [(v_name, v_end)]) llr' rest of
                       Inl e \<Rightarrow> Inl e
                     | Inr ratios \<Rightarrow> Inr (llr' # ratios)))))"

text \<open>
  \<^verbatim>\<open>accumulated_v_lengths\<close> (lines 926-930): entry \<open>i\<close> is the sum of the lengths of
  the first \<open>i + 1\<close> contigs of the extension.
\<close>

definition accumulated_v_lengths :: "generator \<Rightarrow> path \<Rightarrow> nat list" where
  "accumulated_v_lengths g proposed_extension =
     (let v_lengths = map (\<lambda>(v, e). len_of g v) proposed_extension
      in map (\<lambda>i. sum_list (take (Suc i) v_lengths)) [0..<length v_lengths])"

text \<open>
  \<^verbatim>\<open>_llr / accumulated_v_lengths[_go]\<close>: the value \<open>0\<close> left by \<^verbatim>\<open>min(0, ...)\<close> is
  Python's integer, so \<open>0 / 0\<close> raises; any other finite value there is a numpy float,
  whose division by zero gives an infinity.
\<close>

fun py_div_len :: "pyfloat \<Rightarrow> nat \<Rightarrow> py_error + pyfloat" where
  "py_div_len (Fin r) n =
     (if n \<noteq> 0 then Inr (Fin (r / real n))
      else if r = 0 then Inl ZeroDivisionError
      else if r < 0 then Inr NInf else Inr PInf)"
| "py_div_len PInf n = Inr PInf"
| "py_div_len NInf n = Inr NInf"
| "py_div_len NaN n = Inr NaN"

fun deweight :: "pyfloat list \<Rightarrow> nat list \<Rightarrow> py_error + pyfloat list" where
  "deweight (x # xs) (n # ns) =
     (case py_div_len x n of
        Inl e \<Rightarrow> Inl e
      | Inr y \<Rightarrow> (case deweight xs ns of Inl e \<Rightarrow> Inl e | Inr ys \<Rightarrow> Inr (y # ys)))"
| "deweight xs ns = Inr []"

text \<open>
  \<^verbatim>\<open>__cal_multiplicity_like\<close> (lines 843-937). The optional arguments are \<open>None\<close>
  or a value; an empty dictionary and a zero mean or deviation count as not given.
\<close>

definition cal_multiplicity_like ::
  "generator \<Rightarrow> path \<Rightarrow> path \<Rightarrow> (vname \<times> nat) list option \<Rightarrow> real option \<Rightarrow> real option
     \<Rightarrow> real option \<Rightarrow> real option \<Rightarrow> bool \<Rightarrow> py_error + pyfloat list" where
  "cal_multiplicity_like g p proposed_extension current_v_counts old_cov_mean old_cov_std
       single_cov_mean single_cov_std logarithm =
     (let cnts = (case current_v_counts of
                    None \<Rightarrow> counts_in_path p proposed_extension
                  | Some c \<Rightarrow> if c = [] then counts_in_path p proposed_extension else c)
      in case (if \<not> (truthy old_cov_mean \<and> truthy old_cov_std)
               then get_cov_mean_std g p None
               else Inr (the old_cov_mean, the old_cov_std)) of
           Inl e \<Rightarrow> Inl e
         | Inr old_cov \<Rightarrow>
            (case (if \<not> (truthy single_cov_mean \<and> truthy single_cov_std)
                   then get_cov_mean_of_single_std g p
                   else Inr (the single_cov_mean, the single_cov_std)) of
               Inl e \<Rightarrow> Inl e
             | Inr (s_mean, s_std) \<Rightarrow>
                if \<exists>v \<in> set (map fst proposed_extension). map_of (vertex_info g) v = None
                then Inl KeyError
                else
                 (case cal_loop g cnts s_mean s_std p (Fin 0) proposed_extension of
                    Inl e \<Rightarrow> Inl e
                  | Inr log_like_ratio_list \<Rightarrow>
                     (case deweight log_like_ratio_list
                             (accumulated_v_lengths g proposed_extension) of
                        Inl e \<Rightarrow> Inl e
                      | Inr deweighted \<Rightarrow>
                          if logarithm then Inr deweighted
                          else Inr (map fl_exp deweighted)))))"

section \<open>Stochastic stopping rule\<close>

text \<open>
  \<^verbatim>\<open>proposed_extension[:proposed_end]\<close>: a negative end counts from the end.
\<close>

definition py_take :: "int \<Rightarrow> 'a list \<Rightarrow> 'a list" where
  "py_take k xs = (if 0 \<le> k then take (nat k) xs else take (length xs - nat (- k)) xs)"

text \<open>
  The loop of \<^verbatim>\<open>__heuristic_check_multiplicity\<close> (lines 986-997) over the reversed
  list of likelihood ratios. \<open>rnd i\<close> is the value of the \<open>i\<close>-th call of
  \<^verbatim>\<open>random()\<close>, a number in \<open>[0, 1)\<close>. The result is the accepted \<^verbatim>\<open>proposed_end\<close>,
  or \<open>None\<close> when the loop ends without a draw accepted.
\<close>

fun draw_loop :: "int \<Rightarrow> pyfloat \<Rightarrow> nat \<Rightarrow> pyfloat list \<Rightarrow> (nat \<Rightarrow> real) \<Rightarrow> int option" where
  "draw_loop longest_ex_len previous_like rev_go [] rnd = None"
| "draw_loop longest_ex_len previous_like rev_go (like_ratio # rest) rnd =
     (let proposed_end = longest_ex_len - int rev_go;
          draw_prob = fl_div (fl_sub like_ratio previous_like) (fl_sub (Fin 1) previous_like)
      in if fl_less (Fin (rnd rev_go)) draw_prob then Some proposed_end
         else draw_loop longest_ex_len like_ratio (Suc rev_go) rest rnd)"

text \<open>
  What \<^verbatim>\<open>__heuristic_check_multiplicity\<close> does next: it calls
  \<^verbatim>\<open>__heuristic_extend_path\<close> with a path and the flag \<^verbatim>\<open>not_do_reverse\<close>, or it
  returns a path.
\<close>

datatype next_step = ExtendPath path bool | ReturnPath path

text \<open>
  \<^verbatim>\<open>__heuristic_check_multiplicity\<close> (lines 939-1021). \<^verbatim>\<open>graph.reverse_path\<close> is a
  function of the graph and a parameter here.
\<close>

definition heuristic_check_multiplicity ::
  "generator \<Rightarrow> (path \<Rightarrow> path) \<Rightarrow> (nat \<Rightarrow> real) \<Rightarrow> path \<Rightarrow> path \<Rightarrow> bool
     \<Rightarrow> (vname \<times> nat) list option \<Rightarrow> pyfloat list option \<Rightarrow> py_error + next_step" where
  "heuristic_check_multiplicity g reverse_path rnd p proposed_extension not_do_reverse
       current_v_counts cached_like_ls =
     (if proposed_extension = [] then Inl AssertionError
      else
        let cnts = (case current_v_counts of
                      None \<Rightarrow> counts_in_path p proposed_extension
                    | Some c \<Rightarrow> if c = [] then counts_in_path p proposed_extension else c)
        in case (case cached_like_ls of
                   None \<Rightarrow> cal_multiplicity_like g p proposed_extension (Some cnts)
                              None None None None False
                 | Some cached \<Rightarrow>
                     if cached = []
                     then cal_multiplicity_like g p proposed_extension (Some cnts)
                            None None None None False
                     else Inr cached) of
             Inl e \<Rightarrow> Inl e
           | Inr like_ratio_list \<Rightarrow>
              (case draw_loop (int (length proposed_extension)) (Fin 0) 0 (rev like_ratio_list) rnd of
                 Some proposed_end \<Rightarrow>
                   Inr (ExtendPath (p @ py_take proposed_end proposed_extension) not_do_reverse)
               | None \<Rightarrow>
                   if not_do_reverse then Inr (ReturnPath p)
                   else Inr (ExtendPath (reverse_path p) True)))"

section \<open>Hetero-unit decomposer\<close>

text \<open>
  \<^verbatim>\<open>__decompose_hetero_units\<close> (lines 362-521), in the order of the source.
  Step 1.1: the distinct oriented contigs of the path, sorted, and their numbers of
  copies.
\<close>

definition unique_vne_list :: "path \<Rightarrow> vne list" where
  "unique_vne_list p = sort (remdups p)"

definition copy_to_vne :: "path \<Rightarrow> nat \<Rightarrow> vne list" where
  "copy_to_vne p this_copy = filter (\<lambda>v_n_e. count_list p v_n_e = this_copy) (unique_vne_list p)"

definition copies_of :: "path \<Rightarrow> nat list" where
  "copies_of p = sort (remdups (map (count_list p) (unique_vne_list p)))"

text \<open>
  Step 1.2: \<^verbatim>\<open>v_lengths\<close> is a dictionary keyed by the contig name, so a contig that
  occurs in both orientations has one entry; \<^verbatim>\<open>vertex_info[v]\<close> raises for a contig
  that is not in the graph.
\<close>

definition length_names :: "path \<Rightarrow> vname list" where
  "length_names p = rev (remdups (rev (map fst (unique_vne_list p))))"

text \<open>
  Step 2: the candidate numbers of units. The sums of lengths are restricted to the
  candidate single-copy contigs when the path has some; the division by
  \<^verbatim>\<open>sum_w\<close> raises when the weights sum to zero.
\<close>

definition candidate_sc_vertices :: "generator \<Rightarrow> path \<Rightarrow> vname list" where
  "candidate_sc_vertices g p =
     filter (\<lambda>v. v \<in> candidate_single_copy_vs g) (remdups (map fst (unique_vne_list p)))"

definition sum_lens :: "generator \<Rightarrow> path \<Rightarrow> nat list" where
  "sum_lens g p =
     (if candidate_sc_vertices g p \<noteq> []
      then map (\<lambda>copy_num. sum_list (map (\<lambda>(v_n, v_e). len_of g v_n)
                 (filter (\<lambda>(v_n, v_e). v_n \<in> candidate_single_copy_vs g) (copy_to_vne p copy_num))))
             (copies_of p)
      else map (\<lambda>copy_num. sum_list (map (\<lambda>(v_n, v_e). len_of g v_n) (copy_to_vne p copy_num)))
             (copies_of p))"

definition candidate_num_units :: "generator \<Rightarrow> path \<Rightarrow> py_error + nat list" where
  "candidate_num_units g p =
     (if \<exists>v \<in> set (length_names p). map_of (vertex_info g) v = None then Inl KeyError
      else
        let copies = copies_of p;
            ws = map (\<lambda>(c, l). c * l) (zip copies (sum_lens g p));
            sum_w = real (sum_list ws)
        in if sum_w = 0 then Inl ZeroDivisionError
           else
             let weights = map (\<lambda>w. real w / sum_w) ws;
                 count_weights = length weights
             in Inr (map snd (filter
                  (\<lambda>(go_c, copy_num). copy_num > 1 \<and>
                     sum_list (map (\<lambda>go_w. weights ! go_w)
                        (filter (\<lambda>go_w. copies ! go_w mod copy_num = 0) [go_c..<count_weights]))
                       \<ge> min_unit_similarity g)
                  (zip [0..<length copies] copies))))"

text \<open>
  The product of two numpy arrays, element by element: the shapes must agree, unless
  one array has a single element.
\<close>

definition np_mul :: "nat list \<Rightarrow> nat list \<Rightarrow> py_error + nat list" where
  "np_mul xs ys =
     (if length xs = length ys then Inr (map (\<lambda>(x, y). x * y) (zip xs ys))
      else if length xs = 1 then Inr (map (\<lambda>y. hd xs * y) ys)
      else if length ys = 1 then Inr (map (\<lambda>x. x * hd ys) xs)
      else Inl ValueError)"

definition v_lengths_array :: "generator \<Rightarrow> path \<Rightarrow> nat list" where
  "v_lengths_array g p = map (len_of g) (length_names p)"

definition total_base_len :: "generator \<Rightarrow> path \<Rightarrow> py_error + nat" where
  "total_base_len g p =
     map_sum id sum_list
       (np_mul (v_lengths_array g p) (map (count_list p) (unique_vne_list p)))"

text \<open>
  Step 3.1: the start contigs with the positions of their occurrences, sorted by the
  positions; \<^verbatim>\<open>consecutive_ends\<close>; and the loop that keeps the first of a series of
  consecutive start contigs.
\<close>

definition occurrences :: "path \<Rightarrow> vne \<Rightarrow> nat list" where
  "occurrences p s_ne = filter (\<lambda>s_id. p ! s_id = s_ne) [0..<length p]"

definition candidate_starts :: "generator \<Rightarrow> path \<Rightarrow> nat \<Rightarrow> vne list" where
  "candidate_starts g p num_units =
     (let unit_sc_vertices =
            filter (\<lambda>v_n_e. fst v_n_e \<in> set (candidate_sc_vertices g p)) (copy_to_vne p num_units)
      in if unit_sc_vertices \<noteq> [] then unit_sc_vertices else copy_to_vne p num_units)"

definition sorted_sne_indices :: "generator \<Rightarrow> path \<Rightarrow> nat \<Rightarrow> (vne \<times> nat list) list" where
  "sorted_sne_indices g p num_units =
     sort_key snd (map (\<lambda>s_n_e. (s_n_e, occurrences p s_n_e)) (candidate_starts g p num_units))"

definition consecutive_ends :: "nat \<Rightarrow> (vne \<times> nat list) list \<Rightarrow> bool" where
  "consecutive_ends len_total sne_indices =
     list_all (\<lambda>(first_id, end_id). (end_id + 1) mod len_total = first_id)
       (zip (drop 1 (snd (hd sne_indices)) @ take 1 (snd (hd sne_indices)))
            (snd (last sne_indices)))"

fun drop_consecutive ::
  "nat \<Rightarrow> vne \<times> nat list \<Rightarrow> nat \<Rightarrow> (vne \<times> nat list) list \<Rightarrow> (vne \<times> nat list) list" where
  "drop_consecutive len_total keep step [] = []"
| "drop_consecutive len_total keep step (c # rest) =
     (if list_all (\<lambda>(k_id, c_id). (k_id + step) mod len_total = c_id) (zip (snd keep) (snd c))
      then drop_consecutive len_total keep (step + 1) rest
      else c # drop_consecutive len_total c 1 rest)"

definition kept_sne_indices :: "generator \<Rightarrow> path \<Rightarrow> nat \<Rightarrow> (vne \<times> nat list) list" where
  "kept_sne_indices g p num_units =
     (let len_total = length p;
          sne_indices = sorted_sne_indices g p num_units;
          ends = consecutive_ends len_total sne_indices;
          kept = hd sne_indices # drop_consecutive len_total (hd sne_indices) 1 (tl sne_indices)
      in if ends \<and> length kept > 1 then tl kept else kept)"

text \<open>
  Step 3.2: the units between the occurrences of a start contig, their shared part,
  and the schemes that qualify. \<open>canon\<close> stands for
  \<^verbatim>\<open>graph.get_standardized_path_circ(graph.roll_path(unit))\<close>, which is a function of
  the graph and a parameter here.
\<close>

definition units_of :: "path \<Rightarrow> nat list \<Rightarrow> path list" where
  "units_of p s_indices =
     map (\<lambda>(from_id, to_id). take (to_id - from_id) (drop from_id p))
         (zip (butlast s_indices) (tl s_indices))
     @ [drop (last s_indices) p @ take (hd s_indices) p]"

definition variants_shared :: "path \<Rightarrow> path list \<Rightarrow> nat list" where
  "variants_shared p units =
     map (\<lambda>v_n_e. Min (set (map (\<lambda>unit. count_list unit v_n_e) units))) (unique_vne_list p)"

definition shared_len :: "generator \<Rightarrow> path \<Rightarrow> nat \<Rightarrow> nat \<Rightarrow> path list \<Rightarrow> py_error + real" where
  "shared_len g p base_len num_units units =
     (case np_mul (variants_shared p units) (v_lengths_array g p) of
        Inl e \<Rightarrow> Inl e
      | Inr prods \<Rightarrow> Inr (real (num_units * sum_list prods) / real base_len))"

fun schemes_of_starts ::
  "generator \<Rightarrow> (path \<Rightarrow> path) \<Rightarrow> path \<Rightarrow> nat \<Rightarrow> nat \<Rightarrow> (vne \<times> nat list) list \<Rightarrow> path list list
     \<Rightarrow> py_error + path list list" where
  "schemes_of_starts g canon p base_len num_units [] qualified = Inr qualified"
| "schemes_of_starts g canon p base_len num_units ((start_n_e, s_indices) # rest) qualified =
     (let units = units_of p s_indices
      in case shared_len g p base_len num_units units of
           Inl e \<Rightarrow> Inl e
         | Inr sl \<Rightarrow>
            (let this_scheme = sort (map canon units);
                 qualified' = (if sl > min_unit_similarity g \<and> this_scheme \<notin> set qualified
                               then qualified @ [this_scheme] else qualified)
             in schemes_of_starts g canon p base_len num_units rest qualified'))"

fun qualified_schemes ::
  "generator \<Rightarrow> (path \<Rightarrow> path) \<Rightarrow> path \<Rightarrow> nat \<Rightarrow> nat list \<Rightarrow> path list list
     \<Rightarrow> py_error + path list list" where
  "qualified_schemes g canon p base_len [] qualified = Inr qualified"
| "qualified_schemes g canon p base_len (num_units # rest) qualified =
     (case schemes_of_starts g canon p base_len num_units (kept_sne_indices g p num_units) qualified of
        Inl e \<Rightarrow> Inl e
      | Inr qualified' \<Rightarrow> qualified_schemes g canon p base_len rest qualified')"

text \<open>
  Step 3.3 (lines 499-521): the schemes that lose no sub-path of the original path
  give their units. \<open>sub_paths\<close> stands for \<^verbatim>\<open>tvs.get_variant_sub_paths\<close>, which is
  not in the source files and a parameter here. The source iterates a set of schemes;
  the model takes them in the order in which they were added.
\<close>

fun collect_units :: "(path \<Rightarrow> path list) \<Rightarrow> path \<Rightarrow> path list list \<Rightarrow> path list \<Rightarrow> path list" where
  "collect_units sub_paths p [] circular_units = circular_units"
| "collect_units sub_paths p (this_scheme # rest) circular_units =
     (let original_sub_paths = set (sub_paths p);
          these_sub_paths = \<Union> (set (map (\<lambda>this_unit. set (sub_paths this_unit)) this_scheme))
      in if original_sub_paths - these_sub_paths \<noteq> {}
         then collect_units sub_paths p rest circular_units
         else collect_units sub_paths p rest (circular_units @ this_scheme))"

definition select_units :: "(path \<Rightarrow> path list) \<Rightarrow> path \<Rightarrow> path list list \<Rightarrow> path list" where
  "select_units sub_paths p schemes =
     (let circular_units = collect_units sub_paths p schemes []
      in if circular_units = [] then [p] else circular_units)"

definition decompose_hetero_units ::
  "generator \<Rightarrow> (path \<Rightarrow> path) \<Rightarrow> (path \<Rightarrow> path list) \<Rightarrow> path \<Rightarrow> py_error + path list" where
  "decompose_hetero_units g canon sub_paths circular_path =
     (if length circular_path < 4 then Inr [circular_path]
      else
        case candidate_num_units g circular_path of
          Inl e \<Rightarrow> Inl e
        | Inr cands \<Rightarrow>
           if cands = [] then Inr [circular_path]
           else
             (case total_base_len g circular_path of
                Inl e \<Rightarrow> Inl e
              | Inr base_len \<Rightarrow>
                 (case qualified_schemes g canon circular_path base_len cands [] of
                    Inl e \<Rightarrow> Inl e
                  | Inr schemes \<Rightarrow> Inr (select_units sub_paths circular_path schemes))))"

section \<open>Single-process search\<close>

text \<open>
  The state of \<^verbatim>\<open>__gen_heuristic_paths_uni\<close> (lines 225-271): the generator with
  its catalog (\<^verbatim>\<open>self.variants\<close>, \<^verbatim>\<open>self.variants_counts\<close>) and the two local
  counters. \<open>valid_history\<close> is not a variable of the source: it records every value
  that \<^verbatim>\<open>count_valid\<close> takes, in order, so that properties of all intermediate
  values can be stated.
\<close>

record uni_state =
  self :: generator
  count_search :: int
  count_valid :: int
  valid_history :: "int list"

text \<open>Lines 259-265: a count increment, or a first insertion with count 1.\<close>

definition insert_variant :: "path \<Rightarrow> generator \<Rightarrow> generator" where
  "insert_variant new_path g =
     (case variants_counts g new_path of
        Some c \<Rightarrow> g\<lparr>variants_counts := (variants_counts g)(new_path \<mapsto> c + 1)\<rparr>
      | None \<Rightarrow> g\<lparr>variants_counts := (variants_counts g)(new_path \<mapsto> 1),
                   variants := variants g @ [new_path]\<rparr>)"

text \<open>
  The loop over \<^verbatim>\<open>new_path_list\<close> (lines 257-269), which breaks when the count of
  valid paths equals \<^verbatim>\<open>num_search\<close>.
\<close>

fun insert_units :: "path list \<Rightarrow> uni_state \<Rightarrow> uni_state" where
  "insert_units [] s = s"
| "insert_units (new_path # rest) s =
     (let s' = s\<lparr>count_valid := count_valid s + 1,
                 valid_history := valid_history s @ [count_valid s + 1],
                 self := insert_variant new_path (self s)\<rparr>
      in if count_valid s' = num_search (self s') then s' else insert_units rest s')"

text \<open>
  The loop \<^verbatim>\<open>while count_valid < self.num_search\<close>. The list of paths is what the
  successive calls of \<^verbatim>\<open>get_single_traversal()\<close> return; the loop may run forever,
  and the result is \<open>None\<close> when the list is used up before the loop ends.
  \<^verbatim>\<open>graph.is_circular_path\<close>, \<^verbatim>\<open>graph.is_fully_covered_by\<close> and the decomposer
  with its graph functions are parameters.
\<close>

fun uni_loop ::
  "(path \<Rightarrow> bool) \<Rightarrow> (path \<Rightarrow> bool) \<Rightarrow> (path \<Rightarrow> py_error + path list) \<Rightarrow> path list \<Rightarrow> uni_state
     \<Rightarrow> (py_error + uni_state) option" where
  "uni_loop is_circular_path is_fully_covered_by decompose [] s =
     (if count_valid s < num_search (self s) then None else Some (Inr s))"
| "uni_loop is_circular_path is_fully_covered_by decompose (new_path # traversals) s =
     (if \<not> count_valid s < num_search (self s) then Some (Inr s)
      else
        let s1 = s\<lparr>count_search := count_search s + 1\<rparr>;
            is_circular_p = is_circular_path new_path;
            invalid_search = ((force_circular (self s) \<and> \<not> is_circular_p) \<or>
                              (\<not> hetero_chromosome (self s) \<and> \<not> is_fully_covered_by new_path))
        in if invalid_search
           then uni_loop is_circular_path is_fully_covered_by decompose traversals s1
           else
             (case (if is_circular_p then decompose new_path else Inr [new_path]) of
                Inl e \<Rightarrow> Some (Inl e)
              | Inr new_path_list \<Rightarrow>
                  uni_loop is_circular_path is_fully_covered_by decompose traversals
                    (insert_units new_path_list s1)))"

definition gen_heuristic_paths_uni ::
  "(path \<Rightarrow> bool) \<Rightarrow> (path \<Rightarrow> bool) \<Rightarrow> (path \<Rightarrow> py_error + path list) \<Rightarrow> path list \<Rightarrow> generator
     \<Rightarrow> (py_error + uni_state) option" where
  "gen_heuristic_paths_uni is_circular_path is_fully_covered_by decompose traversals g =
     uni_loop is_circular_path is_fully_covered_by decompose traversals
       \<lparr>self = g, count_search = 0, count_valid = 0, valid_history = []\<rparr>"

text \<open>
  A traversal passes the filter of lines 240-250 when it is circular if
  \<^verbatim>\<open>force_circular\<close> is set, and covers the graph if heterogeneous chromosomes are
  not allowed.
\<close>

definition meets_constraints :: "generator \<Rightarrow> (path \<Rightarrow> bool) \<Rightarrow> (path \<Rightarrow> bool) \<Rightarrow> path \<Rightarrow> bool" where
  "meets_constraints g is_circular_path is_fully_covered_by p =
     ((\<not> force_circular g \<or> is_circular_path p) \<and>
      (hetero_chromosome g \<or> is_fully_covered_by p))"

text \<open>The sum of the occurrence counts over the catalog.\<close>

definition catalog_total :: "generator \<Rightarrow> int" where
  "catalog_total g = (\<Sum>p\<leftarrow>variants g. (case variants_counts g p of None \<Rightarrow> 0 | Some c \<Rightarrow> int c))"

text \<open>
  The invariant of the two loops for a target \<open>ns\<close>: the count of valid paths is at
  most \<open>ns\<close>, as is every value it has taken; the catalog lists each path once, with
  a count; the counts sum to the count of valid paths.
\<close>

definition uni_inv :: "int \<Rightarrow> uni_state \<Rightarrow> bool" where
  "uni_inv ns s =
     (num_search (self s) = ns \<and> count_valid s \<le> ns \<and> distinct (variants (self s)) \<and>
      dom (variants_counts (self s)) = set (variants (self s)) \<and>
      catalog_total (self s) = count_valid s \<and> list_all (\<lambda>c. c \<le> ns) (valid_history s))"


text \<open>The default generator over two contigs, with a target of three valid paths.\<close>

definition demo3 :: generator where
  "demo3 = (default_generator graph_ab)\<lparr>num_search := 3\<rparr>"


section \<open>Workers of the multi-process search\<close>

text \<open>
  The objects that the workers of \<^verbatim>\<open>__gen_heuristic_paths_mp\<close> share (lines
  328-335): the manager list \<^verbatim>\<open>variant\<close>, the manager dictionary
  \<^verbatim>\<open>variants_counts\<close>, the two counters of \<^verbatim>\<open>g_vars\<close>, and the event.
\<close>

record mp_shared =
  variant :: "path list"
  shared_counts :: "path \<rightharpoonup> nat"
  g_count_search :: int
  g_count_valid :: int
  event_set :: bool

text \<open>
  The loop over \<^verbatim>\<open>new_path_list\<close> inside the lock (lines 304-319): when the
  target is already reached the event is set and the loop is left; otherwise the
  count is incremented and the path gets a count increment, or a first insertion
  with count 1.
\<close>

fun worker_insert :: "generator \<Rightarrow> path list \<Rightarrow> mp_shared \<Rightarrow> mp_shared" where
  "worker_insert g [] sh = sh"
| "worker_insert g (new_path # rest) sh =
     (if g_count_valid sh \<ge> num_search g then sh\<lparr>event_set := True\<rparr>
      else
        let sh1 = sh\<lparr>g_count_valid := g_count_valid sh + 1\<rparr>
        in worker_insert g rest
             (case shared_counts sh1 new_path of
                Some c \<Rightarrow> sh1\<lparr>shared_counts := (shared_counts sh1)(new_path \<mapsto> c + 1)\<rparr>
              | None \<Rightarrow> sh1\<lparr>shared_counts := (shared_counts sh1)(new_path \<mapsto> 1),
                            variant := variant sh1 @ [new_path]\<rparr>))"

text \<open>
  The part of an iteration before the lock (lines 282-294), for the traversal that
  \<^verbatim>\<open>get_single_traversal()\<close> returned: the filter, and the decomposition of a
  circular traversal that passed it. It touches nothing shared.
\<close>

definition worker_prepare ::
  "generator \<Rightarrow> (path \<Rightarrow> bool) \<Rightarrow> (path \<Rightarrow> bool) \<Rightarrow> (path \<Rightarrow> py_error + path list) \<Rightarrow> path
     \<Rightarrow> py_error + bool \<times> path list" where
  "worker_prepare g is_circular_path is_fully_covered_by decompose new_path =
     (let is_circular_p = is_circular_path new_path;
          invalid_search = ((force_circular g \<and> \<not> is_circular_p) \<or>
                            (\<not> hetero_chromosome g \<and> \<not> is_fully_covered_by new_path))
      in if \<not> invalid_search
         then (case (if is_circular_p then decompose new_path else Inr [new_path]) of
                 Inl e \<Rightarrow> Inl e
               | Inr new_path_list \<Rightarrow> Inr (invalid_search, new_path_list))
         else Inr (invalid_search, []))"

text \<open>The part of an iteration between \<^verbatim>\<open>lock.acquire()\<close> and \<^verbatim>\<open>lock.release()\<close> (lines 297-320).\<close>

definition worker_commit :: "generator \<Rightarrow> bool \<Rightarrow> path list \<Rightarrow> mp_shared \<Rightarrow> mp_shared" where
  "worker_commit g invalid_search new_path_list sh =
     (let sh1 = sh\<lparr>g_count_search := g_count_search sh + 1\<rparr>
      in if invalid_search then sh1 else worker_insert g new_path_list sh1)"

text \<open>
  Where a worker stands in \<^verbatim>\<open>__heuristic_traversal_worker\<close>: at the test of the
  \<^verbatim>\<open>while\<close> loop (line 279), before the lock with the values it has computed, after
  the loop, or stopped by an exception of the decomposer. A worker is that position
  with the paths its own calls of \<^verbatim>\<open>get_single_traversal()\<close> still have to
  return.
\<close>

datatype worker_pc = At_loop_test | Before_lock bool "path list" | Returned | Raised py_error

type_synonym worker = "worker_pc \<times> path list"

text \<open>
  One move of a worker. At the loop test it reads the shared count once, and either
  leaves the loop or computes lines 282-294 for its next traversal (it waits when
  the traversal does not return). Before the lock, it runs the locked lines 297-320
  as one step, and is back at the loop test.
\<close>

definition worker_move ::
  "generator \<Rightarrow> (path \<Rightarrow> bool) \<Rightarrow> (path \<Rightarrow> bool) \<Rightarrow> (path \<Rightarrow> py_error + path list) \<Rightarrow> worker
     \<Rightarrow> mp_shared \<Rightarrow> worker \<times> mp_shared" where
  "worker_move g is_circular_path is_fully_covered_by decompose w sh =
     (case w of
        (At_loop_test, traversals) \<Rightarrow>
          (if \<not> g_count_valid sh < num_search g then ((Returned, traversals), sh)
           else (case traversals of
                   [] \<Rightarrow> (w, sh)
                 | new_path # rest \<Rightarrow>
                     (case worker_prepare g is_circular_path is_fully_covered_by decompose new_path of
                        Inl e \<Rightarrow> ((Raised e, rest), sh)
                      | Inr (invalid_search, new_path_list) \<Rightarrow>
                          ((Before_lock invalid_search new_path_list, rest), sh))))
      | (Before_lock invalid_search new_path_list, traversals) \<Rightarrow>
          ((At_loop_test, traversals), worker_commit g invalid_search new_path_list sh)
      | _ \<Rightarrow> (w, sh))"

text \<open>
  A run of several workers is an interleaving of their moves: the schedule lists,
  in order, the number of the worker that moves next. Every order in which the
  processes can reach their loop tests and acquire the lock is such a schedule.
\<close>

fun mp_run ::
  "generator \<Rightarrow> (path \<Rightarrow> bool) \<Rightarrow> (path \<Rightarrow> bool) \<Rightarrow> (path \<Rightarrow> py_error + path list) \<Rightarrow> nat list
     \<Rightarrow> worker list \<times> mp_shared \<Rightarrow> worker list \<times> mp_shared" where
  "mp_run g is_circular_path is_fully_covered_by decompose [] st = st"
| "mp_run g is_circular_path is_fully_covered_by decompose (i # schedule) (ws, sh) =
     (if i < length ws
      then (case worker_move g is_circular_path is_fully_covered_by decompose (ws ! i) sh of
              (w', sh') \<Rightarrow>
                mp_run g is_circular_path is_fully_covered_by decompose schedule (ws[i := w'], sh'))
      else mp_run g is_circular_path is_fully_covered_by decompose schedule (ws, sh))"

text \<open>
  The start of \<^verbatim>\<open>__gen_heuristic_paths_mp\<close> (lines 329-335): an empty shared
  catalog, both counters zero, the event not set, and one worker at its loop test
  for each job, given by the paths its traversals will return.
\<close>

definition mp_start :: "path list list \<Rightarrow> worker list \<times> mp_shared" where
  "mp_start oracles =
     (map (\<lambda>traversals. (At_loop_test, traversals)) oracles,
      \<lparr>variant = [], shared_counts = Map.empty, g_count_search = 0, g_count_valid = 0,
       event_set = False\<rparr>)"

text \<open>Lines 357-358: the shared catalog becomes the catalog of the generator.\<close>

definition mp_catalog :: "generator \<Rightarrow> mp_shared \<Rightarrow> generator" where
  "mp_catalog g sh = g\<lparr>variants_counts := shared_counts sh, variants := variant sh\<rparr>"


section \<open>Single-copy candidates\<close>

text \<open>
  \<^verbatim>\<open>estimate_single_copy_vertices\<close> (lines 196-205): the vertices with fewer than two
  connections at both ends join the candidate single-copy contigs.
\<close>

definition estimate_single_copy_vertices :: "generator \<Rightarrow> generator" where
  "estimate_single_copy_vertices g =
     g\<lparr>candidate_single_copy_vs := candidate_single_copy_vs g \<union>
          set (map fst (filter (\<lambda>(v_name, vx). length (connections vx True) < 2 \<and>
                                  length (connections vx False) < 2) (vertex_info g)))\<rparr>"

section \<open>Subpath index\<close>

text \<open>
  \<^verbatim>\<open>__index_start_subpath\<close> and \<^verbatim>\<open>__index_middle_subpath\<close> (lines 1023-1046): the
  pair of the read path and the strand joins the set of the subpath.
\<close>

definition index_subpath ::
  "(path \<rightharpoonup> (nat \<times> bool) set) \<Rightarrow> path \<Rightarrow> nat \<Rightarrow> bool \<Rightarrow> (path \<rightharpoonup> (nat \<times> bool) set)" where
  "index_subpath table subpath read_id strand =
     (case table subpath of
        Some entries \<Rightarrow> table(subpath \<mapsto> insert (read_id, strand) entries)
      | None \<Rightarrow> table(subpath \<mapsto> {(read_id, strand)}))"

text \<open>
  The first loop of \<^verbatim>\<open>index_readpaths_subpaths\<close> (lines 137-158) for one record of
  the alignment: the state is the counter, the list of distinct read paths and the
  alignment lengths. \<open>std_path\<close> and \<open>contain_path\<close> stand for
  \<^verbatim>\<open>graph.get_standardized_path\<close> and \<^verbatim>\<open>graph.contain_path\<close>.
\<close>

definition count_record ::
  "(path \<Rightarrow> path) \<Rightarrow> (path \<Rightarrow> bool) \<Rightarrow> bool \<Rightarrow> gaf_record
     \<Rightarrow> (path \<rightharpoonup> nat) \<times> path list \<times> int list \<Rightarrow> (path \<rightharpoonup> nat) \<times> path list \<times> int list" where
  "count_record std_path contain_path filter_by_graph gaf st =
     (case st of (counter, paths, alignment_lengths) \<Rightarrow>
        let this_read_path = std_path (gaf_path gaf)
        in if filter_by_graph \<and> \<not> contain_path this_read_path then st
           else
             (case counter this_read_path of
                Some c \<Rightarrow> (counter(this_read_path \<mapsto> c + 1), paths,
                           alignment_lengths @ [p_align_len gaf])
              | None \<Rightarrow> (counter(this_read_path \<mapsto> 1), paths @ [this_read_path],
                         alignment_lengths @ [p_align_len gaf])))"

text \<open>
  The second loop (lines 159-176) for one read path: the leading subpaths of both
  strands are starting subpaths, the inner ones are middle subpaths. \<open>rev_path\<close>
  stands for \<^verbatim>\<open>graph.reverse_path\<close>.
\<close>

definition index_read ::
  "(path \<Rightarrow> path) \<Rightarrow> nat \<times> path
     \<Rightarrow> (path \<rightharpoonup> (nat \<times> bool) set) \<times> (path \<rightharpoonup> (nat \<times> bool) set)
     \<Rightarrow> (path \<rightharpoonup> (nat \<times> bool) set) \<times> (path \<rightharpoonup> (nat \<times> bool) set)" where
  "index_read rev_path entry tables =
     (case entry of (read_id, this_read_path) \<Rightarrow>
        let read_contig_num = length this_read_path;
            reverse_read_path = rev_path this_read_path
        in fold (\<lambda>sub_contig_num (starting, middle).
                   (index_subpath
                      (index_subpath starting (take sub_contig_num this_read_path) read_id True)
                      (take sub_contig_num reverse_read_path) read_id False,
                    fold (\<lambda>go_sub mid.
                            index_subpath
                              (index_subpath mid
                                 (take sub_contig_num (drop go_sub this_read_path)) read_id True)
                              (take sub_contig_num (drop go_sub reverse_read_path)) read_id False)
                         [1..<read_contig_num - sub_contig_num] middle))
                [1..<read_contig_num] tables)"

text \<open>
  \<^verbatim>\<open>index_readpaths_subpaths\<close> (lines 134-179). The counter is reset, the list of
  read paths is not; \<^verbatim>\<open>sorted(alignment_lengths)[-1]\<close> raises when no record was
  counted; the last statement marks the index as built.
\<close>

definition index_readpaths_subpaths ::
  "(path \<Rightarrow> path) \<Rightarrow> (path \<Rightarrow> bool) \<Rightarrow> (path \<Rightarrow> path) \<Rightarrow> bool \<Rightarrow> generator \<Rightarrow> py_error + generator" where
  "index_readpaths_subpaths std_path contain_path rev_path filter_by_graph g =
     (case fold (count_record std_path contain_path filter_by_graph) (alignment g)
             (Map.empty, read_paths g, []) of
        (counter, paths, alignment_lengths) \<Rightarrow>
          (case fold (index_read rev_path) (zip [0..<length paths] paths)
                  (starting_subpath_to_readpaths g, middle_subpath_to_readpaths g) of
             (starting, middle) \<Rightarrow>
               if alignment_lengths = [] then Inl IndexError
               else Inr (g\<lparr>read_paths_counter := counter, read_paths := paths,
                          starting_subpath_to_readpaths := starting,
                          middle_subpath_to_readpaths := middle,
                          local_max_alignment_len := Some (Max (set alignment_lengths)),
                          read_paths_counter_indexed := True\<rparr>)))"

text \<open>
  \<^verbatim>\<open>estimate_contig_coverages_from_read_paths\<close> (lines 181-190): the number of
  occurrences of every vertex in the distinct read paths.
\<close>

definition estimate_contig_coverages_from_read_paths :: "generator \<Rightarrow> generator" where
  "estimate_contig_coverages_from_read_paths g =
     g\<lparr>contig_coverages :=
          map (\<lambda>(v_name, vx). (v_name, real (count_list (map fst (concat (read_paths g))) v_name)))
              (vertex_info g)\<rparr>"

section \<open>Entry points\<close>

text \<open>
  \<^verbatim>\<open>generate_heuristic_paths\<close> (lines 103-121). The two searches are parameters:
  \<open>uni\<close> stands for \<^verbatim>\<open>__gen_heuristic_paths_uni\<close> and \<open>mp\<close> for the search with
  several processes. \<open>prepare_coverages\<close> is lines 110-116: the coverages and the
  candidate single-copy contigs.
\<close>

definition prepare_coverages :: "generator \<Rightarrow> generator" where
  "prepare_coverages g =
     estimate_single_copy_vertices
       (if use_alignment_cov g then estimate_contig_coverages_from_read_paths g
        else use_contig_coverage_from_assembly_graph g)"

definition generate_heuristic_paths ::
  "(path \<Rightarrow> path) \<Rightarrow> (path \<Rightarrow> bool) \<Rightarrow> (path \<Rightarrow> path) \<Rightarrow> (generator \<Rightarrow> py_error + 'a)
     \<Rightarrow> (generator \<Rightarrow> int \<Rightarrow> py_error + 'a) \<Rightarrow> generator \<Rightarrow> int option \<Rightarrow> py_error + 'a" where
  "generate_heuristic_paths std_path contain_path rev_path uni mp g n_proc =
     (let n = (case n_proc of None \<Rightarrow> num_processes g | Some k \<Rightarrow> k)
      in if \<not> n \<ge> 1 then Inl AssertionError
         else
           case (if \<not> read_paths_counter_indexed g
                 then index_readpaths_subpaths std_path contain_path rev_path True g
                 else Inr g) of
             Inl e \<Rightarrow> Inl e
           | Inr g1 \<Rightarrow> if n = 1 then uni (prepare_coverages g1) else mp (prepare_coverages g1) n)"

text \<open>
  \<^verbatim>\<open>get_single_traversal\<close> (lines 573-574) with the first branch of
  \<^verbatim>\<open>__heuristic_extend_path\<close> (lines 585-597), which starts from a random read
  path. \<^verbatim>\<open>random.choices\<close> raises \<^verbatim>\<open>IndexError\<close> for an empty population; for
  a population with members, \<open>choices\<close> gives the member drawn and \<open>rnd\<close> the value of
  \<^verbatim>\<open>random()\<close>. The call of \<^verbatim>\<open>__heuristic_extend_path\<close> with the chosen path
  (lines 598-841) and the canonical form of its result are the parameters \<open>extend_path\<close>
  and \<open>canon\<close>. The flag \<^verbatim>\<open>__read_paths_counter_indexed\<close> is not read.
\<close>

fun freq_reciprocals :: "(path \<rightharpoonup> nat) \<Rightarrow> path list \<Rightarrow> py_error + real list" where
  "freq_reciprocals counter [] = Inr []"
| "freq_reciprocals counter (r_p # rest) =
     (case counter r_p of
        None \<Rightarrow> Inl KeyError
      | Some c \<Rightarrow>
          if c = 0 then Inl ZeroDivisionError
          else (case freq_reciprocals counter rest of
                  Inl e \<Rightarrow> Inl e
                | Inr ws \<Rightarrow> Inr (1 / real c # ws)))"

definition get_single_traversal ::
  "(path list \<Rightarrow> real list \<Rightarrow> path) \<Rightarrow> real \<Rightarrow> (path \<Rightarrow> path) \<Rightarrow> (path \<Rightarrow> bool \<Rightarrow> py_error + path)
     \<Rightarrow> (path \<Rightarrow> path) \<Rightarrow> generator \<Rightarrow> py_error + path" where
  "get_single_traversal choices rnd rev_path extend_path canon g =
     (case freq_reciprocals (read_paths_counter g) (read_paths g) of
        Inl e \<Rightarrow> Inl e
      | Inr read_p_freq_reciprocal \<Rightarrow>
          if read_paths g = [] then Inl IndexError
          else
            let read_path = choices (read_paths g) read_p_freq_reciprocal;
                read_path' = (if rnd > 0.5 then rev_path read_path else read_path)
            in map_sum id canon (extend_path read_path' False))"

text \<open>A generator as the constructor leaves it, with one alignment record.\<close>

definition fresh_generator :: generator where
  "fresh_generator =
     (default_generator graph_ab)
       \<lparr>alignment := [\<lparr>gaf_path = [(''a'', True), (''b'', True)], p_align_len = 150\<rparr>]\<rparr>"

section \<open>Graph functions for the examples\<close>

text \<open>
  The assembly graph and the object \<^verbatim>\<open>tvs\<close> are collaborators whose code is not
  among the source files. The operations of the generator take their functions as
  parameters; the definitions of this section give the parameters a value in the
  examples.

  Modelled from the spec: \<^verbatim>\<open>graph.reverse_path\<close>, \<^verbatim>\<open>graph.get_standardized_path_circ\<close>
  with \<^verbatim>\<open>graph.roll_path\<close>, \<^verbatim>\<open>graph.is_fully_covered_by\<close>, \<^verbatim>\<open>graph.is_circular_path\<close>
  and \<^verbatim>\<open>tvs.get_variant_sub_paths\<close> are missing. The specification names them as
  path canonicalization (standardize, roll, reverse, check-circularity,
  check-full-coverage) and as the sub-paths of a variant that the proportion estimator
  uses. The reverse of a path turns the order and every orientation around. The
  standard form of a circular path is the least of the rotations of the path and of its
  reverse, as in the commented solver of the source (lines 1197-1202). A path covers
  the graph when every vertex occurs in it. A path is circular when its last contig
  connects to its first: a connection \<^verbatim>\<open>(name, end)\<close> at the end of a contig is
  followed in a path by \<^verbatim>\<open>(name, not end)\<close> (line 700). The sub-paths of a variant
  are the read paths that occur in the circle, in either direction.
\<close>

definition reverse_path :: "path \<Rightarrow> path" where
  "reverse_path p = rev (map (\<lambda>(v, e). (v, \<not> e)) p)"

definition standardized_path_circ :: "path \<Rightarrow> path" where
  "standardized_path_circ p =
     (if p = [] then []
      else hd (sort (map (\<lambda>i. rotate i p) [0..<length p]
                     @ map (\<lambda>i. rotate i (reverse_path p)) [0..<length p])))"

definition is_fully_covered_by :: "generator \<Rightarrow> path \<Rightarrow> bool" where
  "is_fully_covered_by g p = list_all (\<lambda>(v, vx). v \<in> set (map fst p)) (vertex_info g)"

definition is_circular_path :: "generator \<Rightarrow> path \<Rightarrow> bool" where
  "is_circular_path g p =
     (p \<noteq> [] \<and>
      (case map_of (vertex_info g) (fst (last p)) of
         None \<Rightarrow> False
       | Some vx \<Rightarrow> (fst (hd p), \<not> snd (hd p)) \<in> set (connections vx (snd (last p)))))"

definition occurs_in_circle :: "path \<Rightarrow> path \<Rightarrow> bool" where
  "occurs_in_circle r p = list_ex (\<lambda>i. take (length r) (rotate i p) = r) [0..<length p]"

definition read_sub_paths :: "path list \<Rightarrow> path \<Rightarrow> path list" where
  "read_sub_paths reads p =
     filter (\<lambda>r. occurs_in_circle r p \<or> occurs_in_circle (reverse_path r) p) reads"

text \<open>
  Five contigs \<open>c \<rightarrow> r \<rightarrow> (p | q) \<rightarrow> s \<rightarrow> c\<close>: the long contig \<open>c\<close> and the short
  alternatives \<open>p\<close> and \<open>q\<close> have one connection at each end.
\<close>

definition graph_crpqs :: vertex_info where
  "graph_crpqs =
     [(''c'', \<lparr>len = 1000, cov = 20,
              connections = (\<lambda>e. if e then [(''r'', False)] else [(''s'', True)])\<rparr>),
      (''p'', \<lparr>len = 1, cov = 10,
              connections = (\<lambda>e. if e then [(''s'', False)] else [(''r'', True)])\<rparr>),
      (''q'', \<lparr>len = 1, cov = 10,
              connections = (\<lambda>e. if e then [(''s'', False)] else [(''r'', True)])\<rparr>),
      (''r'', \<lparr>len = 10, cov = 20,
              connections = (\<lambda>e. if e then [(''p'', False), (''q'', False)] else [(''c'', True)])\<rparr>),
      (''s'', \<lparr>len = 10, cov = 20,
              connections = (\<lambda>e. if e then [(''c'', False)] else [(''p'', True), (''q'', True)])\<rparr>)]"

text \<open>
  A generator over that graph that does not allow heterogeneous chromosomes, with a
  target of two valid paths, after \<^verbatim>\<open>estimate_single_copy_vertices\<close>.
\<close>

definition homo_generator :: generator where
  "homo_generator =
     estimate_single_copy_vertices
       ((default_generator graph_crpqs)\<lparr>hetero_chromosome := False, num_search := 2\<rparr>)"

text \<open>
  A circular traversal in standard form that passes \<open>c\<close> twice, once through \<open>p\<close>
  and once through \<open>q\<close>; its two units; and read paths of two contigs each.
\<close>

definition canon_path :: path where
  "canon_path = [(''c'', False), (''s'', False), (''p'', False), (''r'', False),
                 (''c'', False), (''s'', False), (''q'', False), (''r'', False)]"

definition unit_p :: path where
  "unit_p = [(''c'', False), (''s'', False), (''p'', False), (''r'', False)]"

definition unit_q :: path where
  "unit_q = [(''c'', False), (''s'', False), (''q'', False), (''r'', False)]"

definition short_reads :: "path list" where
  "short_reads = [[(''c'', False), (''s'', False)], [(''s'', False), (''p'', False)],
                  [(''s'', False), (''q'', False)], [(''r'', False), (''c'', False)]]"

text \<open>
  A single contig whose end connects to its own start, so that the contig alone is a
  circular path, and a generator over it.
\<close>

definition graph_loop :: vertex_info where
  "graph_loop =
     [(''a'', \<lparr>len = 100, cov = 10,
              connections = (\<lambda>e. if e then [(''a'', False)] else [(''a'', True)])\<rparr>)]"

definition loop_generator :: generator where
  "loop_generator = default_generator graph_loop"

text \<open>
  Three contigs \<open>l \<rightarrow> i \<rightarrow> s \<rightarrow> i reversed \<rightarrow> l\<close>: the contig \<open>i\<close> is an inverted
  repeat, which a circular path passes once in each orientation. A generator over
  that graph after \<^verbatim>\<open>estimate_single_copy_vertices\<close>, and the circular path.
\<close>

definition graph_lis :: vertex_info where
  "graph_lis =
     [(''i'', \<lparr>len = 200, cov = 20,
              connections = (\<lambda>e. if e then [(''s'', False), (''s'', True)]
                                  else [(''l'', True), (''l'', False)])\<rparr>),
      (''l'', \<lparr>len = 800, cov = 10,
              connections = (\<lambda>e. [(''i'', False)])\<rparr>),
      (''s'', \<lparr>len = 100, cov = 10,
              connections = (\<lambda>e. [(''i'', True)])\<rparr>)]"

definition lis_generator :: generator where
  "lis_generator = estimate_single_copy_vertices (default_generator graph_lis)"

definition unit_lis :: path where
  "unit_lis = [(''l'', True), (''i'', True), (''s'', True), (''i'', False)]"

section \<open>Notions for the properties of the decomposer and of the catalog\<close>

text \<open>
  A scheme loses no sub-path when every sub-path of the original path is a sub-path of
  one of its units (line 506).
\<close>

definition loses_no_sub_path :: "(path \<Rightarrow> path list) \<Rightarrow> path \<Rightarrow> path list \<Rightarrow> bool" where
  "loses_no_sub_path sub_paths p scheme =
     (set (sub_paths p) \<subseteq> (\<Union>this_unit\<in>set scheme. set (sub_paths this_unit)))"

text \<open>
  A path of the catalog comes from a traversal that passed the filter of lines 240-250:
  it is that traversal when the traversal is not circular, and one of the units the
  decomposer returned for it when it is.
\<close>

definition comes_from ::
  "generator \<Rightarrow> (path \<Rightarrow> bool) \<Rightarrow> (path \<Rightarrow> bool) \<Rightarrow> (path \<Rightarrow> py_error + path list) \<Rightarrow> path list
     \<Rightarrow> path \<Rightarrow> bool" where
  "comes_from g is_circ is_full decompose traversals p =
     (\<exists>t\<in>set traversals. meets_constraints g is_circ is_full t \<and>
        (if is_circ t then \<exists>us. decompose t = Inr us \<and> p \<in> set us else p = t))"

section \<open>Properties\<close>

subsection \<open>Construction\<close>

text \<open>
  C9 (as amended). The constructor fails with an assertion error exactly when the
  worker count is below 1, the differ exponent, the decay factor or the coverage
  inertia is negative, the decay threshold is below 100 or the minimum unit similarity
  is below 0.5; otherwise it succeeds, and it stores the target search count as given,
  whatever its value: \<^verbatim>\<open>num_search\<close> is not validated.
\<close>

theorem init_checks_six_bounds:
  "(PathGenerator_init vi al ns np fc hc df dcf dt ci ua ms = Inl AssertionError)
      = (np < 1 \<or> df < 0 \<or> dcf < 0 \<or> dt < 100 \<or> ci < 0 \<or> ms < 1 / 2)
   \<and> (case PathGenerator_init vi al ns np fc hc df dcf dt ci ua ms of
         Inl e \<Rightarrow> False | Inr g \<Rightarrow> num_search g = ns)
      = (1 \<le> np \<and> 0 \<le> df \<and> 0 \<le> dcf \<and> 100 \<le> dt \<and> 0 \<le> ci \<and> 1 / 2 \<le> ms)"
  by (auto simp: PathGenerator_init_def)

text \<open>The theorem at the defaults with no worker: the first assertion fails.\<close>

theorem init_checks_six_bounds_witness:
  "PathGenerator_init [] [] 1000 0 True True 1 20 1000 1 False 0.85 = Inl AssertionError"
  using init_checks_six_bounds [of "[]" "[]" 1000 0 True True 1 20 1000 1 False "0.85"]
  by simp

text \<open>
  The claim as stated fails: a negative target search count passes the constructor
  and is stored.
\<close>

theorem init_accepts_negative_num_search:
  "(case PathGenerator_init [] [] (- 1) 1 True True 1 20 1000 1 False 0.85 of
      Inl e \<Rightarrow> False | Inr g \<Rightarrow> num_search g = - 1)"
  by (simp add: PathGenerator_init_def)

subsection \<open>The coverage mean\<close>

lemma covers_and_lengths_char:
  "covers_and_lengths g xs =
     (if \<forall>v \<in> set (map fst xs). map_of (contig_coverages g) v \<noteq> None \<and> map_of (vertex_info g) v \<noteq> None
      then Inr (map (\<lambda>(v, c). cov_of g v / real c) xs, map (\<lambda>(v, c). len_of g v * c) xs)
      else Inl KeyError)"
proof (induction xs)
  case Nil
  show ?case by simp
next
  case (Cons x xs)
  obtain v c where x: "x = (v, c)" by (cases x)
  show ?case
    unfolding x using Cons.IH
    by (cases "map_of (contig_coverages g) v"; cases "map_of (vertex_info g) v")
       (simp_all add: cov_of_def len_of_def split: if_splits)
qed

lemma sum_list_zip_maps:
  "sum_list (map (\<lambda>(x, y). x * real y) (zip (map f xs) (map h xs))) = sum_list (map (\<lambda>x. f x * real (h x)) xs)"
  by (induction xs) auto

lemma fst_name_counts: "map fst (name_counts p) = remdups (map fst p)"
  by (simp add: name_counts_def Let_def comp_def)

lemma mset_names: "mset p' = mset p \<Longrightarrow> set (map fst p') = set (map fst p) \<and> count_list (map fst p') = count_list (map fst p) \<and> (p' = [] \<longleftrightarrow> p = [])"
proof -
  assume a: "mset p' = mset p"
  then have m: "mset (map fst p') = mset (map fst p)" by (metis mset_map)
  have s: "set (map fst p') = set (map fst p)" using m by (metis set_mset_mset)
  have c: "count_list (map fst p') = count_list (map fst p)"
    using m by (metis count_mset ext)
  have e: "p' = [] \<longleftrightarrow> p = []" using a by (metis mset_zero_iff)
  show ?thesis using s c e by blast
qed

lemma doubled_names:
  assumes "\<And>v. count_list (map fst q) v = 2 * count_list (map fst p) v"
  shows "set (map fst q) = set (map fst p)" "q = [] \<longleftrightarrow> p = []"
proof -
  show s: "set (map fst q) = set (map fst p)"
  proof (rule set_eqI)
    fix v
    have "v \<in> set (map fst q) \<longleftrightarrow> count_list (map fst q) v > 0"
      using count_list_0_iff[of "map fst q" v] by auto
    also have "\<dots> \<longleftrightarrow> count_list (map fst p) v > 0" using assms by simp
    also have "\<dots> \<longleftrightarrow> v \<in> set (map fst p)"
      using count_list_0_iff[of "map fst p" v] by auto
    finally show "v \<in> set (map fst q) \<longleftrightarrow> v \<in> set (map fst p)" .
  qed
  show "q = [] \<longleftrightarrow> p = []" using s by (metis map_is_Nil_conv set_empty)
qed

lemma exclude_one_pointwise:
  assumes "distinct (map fst xs)" "\<forall>vc\<in>set xs. snd vc \<noteq> 0"
  shows "exclude_one xs (dn, dc) = filter nonzero_entry (map (\<lambda>(v, c). (v, adjust_count [(dn, dc)] v c)) xs)"
proof (cases "dc > (case map_of xs dn of None \<Rightarrow> 0 | Some c \<Rightarrow> c)")
  case True
  have "\<And>v c. (v, c) \<in> set xs \<Longrightarrow> adjust_count [(dn, dc)] v c = c"
  proof -
    fix v c assume m: "(v, c) \<in> set xs"
    then have "map_of xs v = Some c" using assms(1) by simp
    then show "adjust_count [(dn, dc)] v c = c" using True by (auto simp: adjust_count_def)
  qed
  then have "map (\<lambda>(v, c). (v, adjust_count [(dn, dc)] v c)) xs = xs"
    by (intro map_idI) auto
  moreover have "filter nonzero_entry xs = xs" using assms(2) by (simp add: nonzero_entry_def)
  ultimately show ?thesis using True by (simp add: exclude_one_def)
next
  case False
  have a: "\<And>v c. (v, c) \<in> set xs \<Longrightarrow> (if v = dn then (v, c - dc) else (v, c)) = (v, adjust_count [(dn, dc)] v c)"
  proof -
    fix v c assume m: "(v, c) \<in> set xs"
    then have "map_of xs v = Some c" using assms(1) by simp
    then show "(if v = dn then (v, c - dc) else (v, c)) = (v, adjust_count [(dn, dc)] v c)"
      using False by (auto simp: adjust_count_def)
  qed
  have m: "map (\<lambda>(v, c). if v = dn then (v, c - dc) else (v, c)) xs = map (\<lambda>(v, c). (v, adjust_count [(dn, dc)] v c)) xs"
    by (rule map_cong[OF refl]) (use a in auto)
  have f: "filter (\<lambda>(v, c). \<not> (v = dn \<and> c = 0)) (map (\<lambda>(v, c). (v, adjust_count [(dn, dc)] v c)) xs)
         = filter nonzero_entry (map (\<lambda>(v, c). (v, adjust_count [(dn, dc)] v c)) xs)"
  proof (rule filter_cong[OF refl])
    fix x assume "x \<in> set (map (\<lambda>(v, c). (v, adjust_count [(dn, dc)] v c)) xs)"
    then obtain v c where vc: "(v, c) \<in> set xs" "x = (v, adjust_count [(dn, dc)] v c)" by auto
    have "c \<noteq> 0" using assms(2) vc(1) by auto
    then have "v \<noteq> dn \<Longrightarrow> adjust_count [(dn, dc)] v c \<noteq> 0" by (simp add: adjust_count_def)
    then show "(case x of (v, c) \<Rightarrow> \<not> (v = dn \<and> c = 0)) = nonzero_entry x"
      unfolding vc(2) by (auto simp: nonzero_entry_def)
  qed
  have "exclude_one xs (dn, dc) = filter (\<lambda>(v, c). \<not> (v = dn \<and> c = 0))
          (map (\<lambda>(v, c). if v = dn then (v, c - dc) else (v, c)) xs)"
    unfolding exclude_one_def prod.case if_not_P[OF False] ..
  then show ?thesis unfolding m f .
qed

lemma adjust_zero: "adjust_count ds v 0 = 0"
  by (simp add: adjust_count_def split: option.splits)

lemma filter_map_adjust:
  "filter nonzero_entry (map (\<lambda>(v, c). (v, adjust_count ds v c)) (filter nonzero_entry (map (\<lambda>(v, c). (v, h v c)) xs)))
   = filter nonzero_entry (map (\<lambda>(v, c). (v, adjust_count ds v (h v c))) xs)"
  by (induction xs) (auto simp: nonzero_entry_def adjust_zero)

lemma adjust_Cons:
  assumes "dn \<notin> set (map fst ds)"
  shows "adjust_count ds v (adjust_count [(dn, dc)] v c) = adjust_count ((dn, dc) # ds) v c"
proof (cases "v = dn")
  case True
  then have "map_of ds v = None" using assms by (simp add: map_of_eq_None_iff)
  then show ?thesis using True by (simp add: adjust_count_def)
next
  case False
  then show ?thesis by (simp add: adjust_count_def)
qed

lemma foldl_exclude_one:
  assumes "distinct (map fst ds)" "distinct (map fst xs)" "\<forall>vc\<in>set xs. snd vc \<noteq> 0"
  shows "foldl exclude_one xs ds = filter nonzero_entry (map (\<lambda>(v, c). (v, adjust_count ds v c)) xs)"
  using assms
proof (induction ds arbitrary: xs)
  case Nil
  have "map (\<lambda>(v, c). (v, adjust_count [] v c)) xs = xs"
    by (intro map_idI) (auto simp: adjust_count_def)
  then show ?case using Nil by (simp add: nonzero_entry_def)
next
  case (Cons d ds)
  obtain dn dc where d: "d = (dn, dc)" by (cases d)
  let ?xs1 = "filter nonzero_entry (map (\<lambda>(v, c). (v, adjust_count [(dn, dc)] v c)) xs)"
  have e1: "exclude_one xs d = ?xs1"
    unfolding d using Cons.prems by (intro exclude_one_pointwise) auto
  have "map fst (map (\<lambda>(v, c). (v, adjust_count [(dn, dc)] v c)) xs) = map fst xs"
    by (simp add: comp_def case_prod_unfold)
  then have d1: "distinct (map fst ?xs1)"
    using Cons.prems(2) by (metis distinct_map_filter)
  have nz1: "\<forall>vc\<in>set ?xs1. snd vc \<noteq> 0" by (auto simp: nonzero_entry_def)
  have dd: "distinct (map fst ds)" "dn \<notin> set (map fst ds)" using Cons.prems(1) d by auto
  have "foldl exclude_one xs (d # ds) = foldl exclude_one ?xs1 ds" by (simp add: e1)
  also have "\<dots> = filter nonzero_entry (map (\<lambda>(v, c). (v, adjust_count ds v c)) ?xs1)"
    by (rule Cons.IH[OF dd(1) d1 nz1])
  also have "\<dots> = filter nonzero_entry (map (\<lambda>(v, c). (v, adjust_count ds v (adjust_count [(dn, dc)] v c))) xs)"
    by (rule filter_map_adjust)
  also have "\<dots> = filter nonzero_entry (map (\<lambda>(v, c). (v, adjust_count (d # ds) v c)) xs)"
    unfolding d adjust_Cons[OF dd(2)] ..
  finally show ?case .
qed

lemma map_of_name_counts:
  "map_of (name_counts p) v = (if v \<in> set (map fst p) then Some (count_list (map fst p) v) else None)"
proof -
  have "map_of (map (\<lambda>v. (v, count_list (map fst p) v)) (remdups (map fst p))) v
      = (if v \<in> set (remdups (map fst p)) then Some (count_list (map fst p) v) else None)"
    by (induction "remdups (map fst p)") (auto simp: map_of_map_restrict restrict_map_def)
  then show ?thesis by (simp add: name_counts_def Let_def)
qed

lemma count_pos_iff: "count_list xs x \<noteq> 0 \<longleftrightarrow> x \<in> set xs"
  by (simp add: count_list_0_iff)

lemma adjust_name_counts:
  "adjust_count (name_counts ep) v (count_list (map fst p) v) = remaining_count p (Some ep) v"
  using count_pos_iff[of "map fst ep" v]
  by (auto simp: adjust_count_def map_of_name_counts remaining_count_def Let_def)

lemma name_counts_distinct: "distinct (map fst (name_counts p))"
  unfolding fst_name_counts by simp

lemma name_counts_nonzero: "vc \<in> set (name_counts p) \<Longrightarrow> snd vc \<noteq> 0"
proof -
  assume "vc \<in> set (name_counts p)"
  then obtain v where v: "v \<in> set (map fst p)" "vc = (v, count_list (map fst p) v)"
    by (auto simp: name_counts_def Let_def)
  then show ?thesis using count_pos_iff[of "map fst p" v] by simp
qed

lemma filter_map_pairs:
  "filter nonzero_entry (map (\<lambda>v. (v, h v)) xs) = map (\<lambda>v. (v, h v)) (filter (\<lambda>v. h v \<noteq> 0) xs)"
  by (induction xs) (auto simp: nonzero_entry_def)

lemma v_names_after_char:
  "v_names_after p ex =
     map (\<lambda>v. (v, remaining_count p ex v)) (filter (\<lambda>v. remaining_count p ex v \<noteq> 0) (remdups (map fst p)))"
proof -
  have plain: "name_counts p = map (\<lambda>v. (v, count_list (map fst p) v)) (filter (\<lambda>v. count_list (map fst p) v \<noteq> 0) (remdups (map fst p)))"
  proof -
    have "filter (\<lambda>v. count_list (map fst p) v \<noteq> 0) (remdups (map fst p)) = remdups (map fst p)"
      using count_pos_iff[of "map fst p"] by (intro filter_True) auto
    then show ?thesis by (simp add: name_counts_def Let_def)
  qed
  show ?thesis
  proof (cases ex)
    case None
    then show ?thesis using plain by (simp add: v_names_after_def remaining_count_def)
  next
    case (Some ep)
    show ?thesis
    proof (cases "ep = []")
      case True
      then show ?thesis using plain Some by (simp add: v_names_after_def remaining_count_def)
    next
      case False
      have "exclude_names (name_counts p) ep
          = filter nonzero_entry (map (\<lambda>(v, c). (v, adjust_count (name_counts ep) v c)) (name_counts p))"
        unfolding exclude_names_def
        by (rule foldl_exclude_one) (use name_counts_distinct name_counts_nonzero in auto)
      also have "map (\<lambda>(v, c). (v, adjust_count (name_counts ep) v c)) (name_counts p)
          = map (\<lambda>v. (v, remaining_count p (Some ep) v)) (remdups (map fst p))"
      proof -
        have "name_counts p = map (\<lambda>v. (v, count_list (map fst p) v)) (remdups (map fst p))"
          by (simp add: name_counts_def Let_def)
        then have "map (\<lambda>(v, c). (v, adjust_count (name_counts ep) v c)) (name_counts p)
          = map (\<lambda>v. (v, adjust_count (name_counts ep) v (count_list (map fst p) v))) (remdups (map fst p))"
          by (simp only: map_map comp_def prod.case)
        then show ?thesis by (simp only: adjust_name_counts)
      qed
      finally show ?thesis using Some False
        by (simp add: v_names_after_def filter_map_pairs)
    qed
  qed
qed

lemma sum_list_v_names_after:
  fixes F :: "vname \<Rightarrow> nat \<Rightarrow> 'a::comm_monoid_add"
  shows "sum_list (map (\<lambda>(v, c). F v c) (v_names_after p ex))
       = (\<Sum>v\<in>remaining_names p ex. F v (remaining_count p ex v))"
proof -
  let ?ys = "filter (\<lambda>v. remaining_count p ex v \<noteq> 0) (remdups (map fst p))"
  have "sum_list (map (\<lambda>(v, c). F v c) (v_names_after p ex))
      = sum_list (map (\<lambda>v. F v (remaining_count p ex v)) ?ys)"
    by (simp add: v_names_after_char comp_def)
  also have "\<dots> = (\<Sum>v\<in>set ?ys. F v (remaining_count p ex v))"
    by (rule sum_list_distinct_conv_sum_set) simp
  also have "set ?ys = remaining_names p ex" by (auto simp: remaining_names_def)
  finally show ?thesis .
qed

lemma keys_v_names_after: "set (map fst (v_names_after p ex)) = remaining_names p ex"
  by (auto simp: v_names_after_char remaining_names_def comp_def)

lemma get_cov_mean_char:
  "get_cov_mean g p ex =
     (if p = [] then Inl AssertionError
      else if \<exists>v\<in>set (map fst p). map_of (vertex_info g) v = None then Inl PathException
      else if \<exists>v\<in>remaining_names p ex. map_of (contig_coverages g) v = None then Inl KeyError
      else if total_weight g (remaining_count p ex) (remaining_names p ex) = 0 then Inl ZeroDivisionError
      else Inr (weighted_mean g (remaining_count p ex) (remaining_names p ex)))"
proof -
  let ?xs = "v_names_after p ex"
  have unf: "get_cov_mean g p ex =
      map_sum id fst (case check_path g p of Inl e \<Rightarrow> Inl e
        | Inr _ \<Rightarrow> (case covers_and_lengths g ?xs of Inl e \<Rightarrow> Inl e | Inr (cs, ls) \<Rightarrow> mean_and_std cs ls))"
    unfolding get_cov_mean_def get_cov_mean_std_def v_names_after_def Let_def ..
  have w: "sum_list (map (\<lambda>(v, c). len_of g v * c) ?xs) = total_weight g (remaining_count p ex) (remaining_names p ex)"
    unfolding total_weight_def by (rule sum_list_v_names_after)
  have n: "sum_list (map (\<lambda>(x, y). x * real y) (zip (map (\<lambda>(v, c). cov_of g v / real c) ?xs) (map (\<lambda>(v, c). len_of g v * c) ?xs)))
      = (\<Sum>v\<in>remaining_names p ex. cov_of g v / real (remaining_count p ex v) * real (len_of g v * remaining_count p ex v))"
    unfolding sum_list_zip_maps
    using sum_list_v_names_after[of "\<lambda>v c. cov_of g v / real c * real (len_of g v * c)" p ex]
    by (simp add: case_prod_unfold)
  have sub: "remaining_names p ex \<subseteq> set (map fst p)" by (auto simp: remaining_names_def)
  have cl: "covers_and_lengths g ?xs =
     (if \<forall>v \<in> remaining_names p ex. map_of (contig_coverages g) v \<noteq> None \<and> map_of (vertex_info g) v \<noteq> None
      then Inr (map (\<lambda>(v, c). cov_of g v / real c) ?xs, map (\<lambda>(v, c). len_of g v * c) ?xs)
      else Inl KeyError)"
    unfolding covers_and_lengths_char keys_v_names_after ..
  show ?thesis
  proof (cases "p = []")
    case True
    then show ?thesis unfolding unf by (simp add: check_path_def)
  next
    case ne: False
    show ?thesis
    proof (cases "\<exists>v\<in>set (map fst p). map_of (vertex_info g) v = None")
      case True
      then show ?thesis unfolding unf using ne by (simp add: check_path_def)
    next
      case vi: False
      show ?thesis
      proof (cases "\<exists>v\<in>remaining_names p ex. map_of (contig_coverages g) v = None")
        case True
        then have "covers_and_lengths g ?xs = Inl KeyError"
          unfolding cl by auto
        then show ?thesis unfolding unf using ne vi True by (simp add: check_path_def)
      next
        case cc: False
        have "covers_and_lengths g ?xs =
           Inr (map (\<lambda>(v, c). cov_of g v / real c) ?xs, map (\<lambda>(v, c). len_of g v * c) ?xs)"
          unfolding cl using vi cc sub by auto
        then show ?thesis unfolding unf using ne vi cc
          by (auto simp: check_path_def mean_and_std_def np_average_def w n weighted_mean_def)
      qed
    qed
  qed
qed

lemma remaining_None:
  "remaining_count p None = count_list (map fst p)" "remaining_names p None = set (map fst p)"
  by (auto simp: remaining_count_def remaining_names_def count_list_0_iff)

lemma get_cov_mean_perm:
  assumes "mset p' = mset p"
  shows "get_cov_mean g p' None = get_cov_mean g p None"
proof -
  have s: "set (map fst p') = set (map fst p)"
    and c: "count_list (map fst p') = count_list (map fst p)"
    and e: "(p' = []) = (p = [])"
    using mset_names[OF assms] by blast+
  show ?thesis unfolding get_cov_mean_char remaining_None s c e ..
qed

lemma get_cov_mean_doubled:
  assumes d: "\<And>v. count_list (map fst q) v = 2 * count_list (map fst p) v"
  shows "get_cov_mean g q None = map_sum id (\<lambda>m. m / 2) (get_cov_mean g p None)"
proof -
  let ?S = "set (map fst p)"
  let ?c = "count_list (map fst p)"
  let ?c2 = "count_list (map fst q)"
  have tw: "total_weight g ?c2 ?S = 2 * total_weight g ?c ?S"
    unfolding total_weight_def d by (simp add: sum_distrib_left mult.commute mult.left_commute)
  have nz: "\<And>v. v \<in> ?S \<Longrightarrow> ?c v \<noteq> 0"
    using count_list_0_iff[of "map fst p"] by blast
  have num: "(\<Sum>v\<in>?S. cov_of g v / real (?c2 v) * real (len_of g v * ?c2 v))
           = (\<Sum>v\<in>?S. cov_of g v / real (?c v) * real (len_of g v * ?c v))"
    by (rule sum.cong) (use nz in \<open>auto simp: d\<close>)
  have wm: "weighted_mean g ?c2 ?S = weighted_mean g ?c ?S / 2"
    unfolding weighted_mean_def num tw by simp
  show ?thesis
    unfolding get_cov_mean_char remaining_None doubled_names[OF d] wm tw by auto
qed

text \<open>The definitions a concrete call of the coverage mean unfolds to.\<close>

lemmas cov_eval = get_cov_mean_def get_cov_mean_std_def check_path_def name_counts_def
  exclude_names_def exclude_one_def mean_and_std_def np_average_def default_generator_def
  use_contig_coverage_from_assembly_graph_def graph_ab_def Let_def

text \<open>
  C2 (as amended). \<^verbatim>\<open>__get_cov_mean\<close> with an excluded path raises no exclusion
  error. For a contig with more occurrences to exclude than the path has, the code logs
  an error and keeps the contig's full count (\<open>remaining_count\<close>); for the others it
  subtracts, and drops a contig that reaches zero. The result is the length-weighted
  mean of the per-copy coverages over the remaining contigs. It raises only for an
  empty path (assertion), a contig that is not in the graph, a remaining contig without
  a coverage, and weights that sum to zero (numpy's \<^verbatim>\<open>ZeroDivisionError\<close>, also when
  no contig remains).
\<close>

theorem get_cov_mean_exclusion:
  "get_cov_mean g p (Some ep) =
     (if p = [] then Inl AssertionError
      else if \<exists>v\<in>set (map fst p). map_of (vertex_info g) v = None then Inl PathException
      else if \<exists>v\<in>remaining_names p (Some ep). map_of (contig_coverages g) v = None then Inl KeyError
      else if total_weight g (remaining_count p (Some ep)) (remaining_names p (Some ep)) = 0
        then Inl ZeroDivisionError
      else Inr (weighted_mean g (remaining_count p (Some ep)) (remaining_names p (Some ep))))"
  by (rule get_cov_mean_char)

text \<open>
  The theorem at the path \<open>a, b\<close> with \<open>a, a, b\<close> excluded: \<open>a\<close> keeps its one
  occurrence, \<open>b\<close> is removed, and the mean is the coverage of \<open>a\<close>.
\<close>

theorem get_cov_mean_exclusion_witness:
  "get_cov_mean (default_generator graph_ab) [(''a'', True), (''b'', True)]
     (Some [(''a'', True), (''a'', True), (''b'', True)]) = Inr 10
   \<and> remaining_count [(''a'', True), (''b'', True)] (Some [(''a'', True), (''a'', True), (''b'', True)]) ''a'' = 1
   \<and> remaining_count [(''a'', True), (''b'', True)] (Some [(''a'', True), (''a'', True), (''b'', True)]) ''b'' = 0"
  using get_cov_mean_exclusion [of "default_generator graph_ab" "[(''a'', True), (''b'', True)]"
     "[(''a'', True), (''a'', True), (''b'', True)]"]
  by (simp add: cov_eval remaining_count_def)

text \<open>
  The claim as stated fails: excluding two occurrences of \<open>a\<close> from a path with one
  returns a mean and raises nothing.
\<close>

theorem get_cov_mean_over_exclusion_returns:
  "get_cov_mean (default_generator graph_ab) [(''a'', True)] (Some [(''a'', True), (''a'', True)]) = Inr 10"
  by (simp add: cov_eval)

text \<open>
  C5 (as amended). The mean of \<^verbatim>\<open>__get_cov_mean\<close> does not depend on the order of
  the contigs of the path (over the real numbers), and a path in which every contig
  occurs twice as often has half the mean (and the same error, if any): the per-copy
  coverage of every contig halves while the weights keep their proportions.
\<close>

theorem get_cov_mean_order_and_doubling:
  "(mset p' = mset p \<longrightarrow> get_cov_mean g p' None = get_cov_mean g p None)
   \<and> ((\<forall>v. count_list (map fst q) v = 2 * count_list (map fst p) v)
        \<longrightarrow> get_cov_mean g q None = map_sum id (\<lambda>m. m / 2) (get_cov_mean g p None))"
  using get_cov_mean_perm[of p' p g] get_cov_mean_doubled[of q p g] by blast

text \<open>The theorem at the paths \<open>b, a\<close> and \<open>a, b\<close>, and at \<open>a, b, b, a\<close>.\<close>

theorem get_cov_mean_order_and_doubling_witness:
  "mset [(''b'', True), (''a'', True)] = mset [(''a'', True), (''b'', True)]
   \<and> get_cov_mean (default_generator graph_ab) [(''b'', True), (''a'', True)] None
       = get_cov_mean (default_generator graph_ab) [(''a'', True), (''b'', True)] None
   \<and> (\<forall>v. count_list (map fst [(''a'', True), (''b'', True), (''b'', True), (''a'', True)]) v
            = 2 * count_list (map fst [(''a'', True), (''b'', True)]) v)
   \<and> get_cov_mean (default_generator graph_ab) [(''a'', True), (''b'', True), (''b'', True), (''a'', True)] None
       = map_sum id (\<lambda>m. m / 2) (get_cov_mean (default_generator graph_ab) [(''a'', True), (''b'', True)] None)"
proof -
  have m: "mset [(''b'', True), (''a'', True)] = mset [(''a'', True), (''b'', True)]"
    by (simp add: add.commute)
  have c: "\<forall>v. count_list (map fst [(''a'', True), (''b'', True), (''b'', True), (''a'', True)]) v
            = 2 * count_list (map fst [(''a'', True), (''b'', True)]) v"
    by simp
  show ?thesis
    using get_cov_mean_order_and_doubling [of "[(''b'', True), (''a'', True)]" "[(''a'', True), (''b'', True)]"
      "default_generator graph_ab" "[(''a'', True), (''b'', True), (''b'', True), (''a'', True)]"] m c
    by blast
qed

text \<open>
  The claim as stated fails: the path \<open>a\<close> has mean 10, the path \<open>a, a\<close>, with the
  multiplicity doubled, has mean 5.
\<close>

theorem get_cov_mean_doubling_halves:
  "get_cov_mean (default_generator graph_ab) [(''a'', True)] None = Inr 10
   \<and> get_cov_mean (default_generator graph_ab) [(''a'', True), (''a'', True)] None = Inr 5"
  by (simp add: cov_eval)

subsection \<open>The multiplicity likelihood evaluator\<close>

lemma py_min0_le0: "fl_le (py_min0 x) (Fin 0)"
  by (cases x) (auto simp: py_min0_def)

lemma cal_loop_le0:
  "cal_loop g cnts sm ss p llr ext = Inr xs \<Longrightarrow>
     length xs = length ext \<and> (\<forall>x\<in>set xs. fl_le x (Fin 0))"
proof (induction ext arbitrary: p llr xs)
  case Nil
  then show ?case by simp
next
  case (Cons ve ext)
  obtain v_name v_end where ve: "ve = (v_name, v_end)" by (cases ve)
  from Cons.prems obtain llr' ratios where
    r: "cal_loop g cnts sm ss (p @ [(v_name, v_end)]) llr' ext = Inr ratios"
    and x: "xs = llr' # ratios" and l: "fl_le llr' (Fin 0)"
    unfolding ve
    by (auto simp: Let_def py_min0_le0 split: option.splits sum.splits if_splits prod.splits)
  from Cons.IH[OF r] show ?case using x l by simp
qed

lemma py_div_len_le0: "fl_le x (Fin 0) \<Longrightarrow> py_div_len x n = Inr y \<Longrightarrow> fl_le y (Fin 0)"
  by (cases x) (auto split: if_splits simp: divide_nonpos_nonneg)

lemma deweight_le0:
  "deweight xs ns = Inr ys \<Longrightarrow> length ns = length xs \<Longrightarrow> \<forall>x\<in>set xs. fl_le x (Fin 0) \<Longrightarrow>
     length ys = length xs \<and> (\<forall>y\<in>set ys. fl_le y (Fin 0))"
proof (induction xs ns arbitrary: ys rule: deweight.induct)
  case (1 x xs n ns)
  from "1.prems"(1) obtain y ys' where
    y: "py_div_len x n = Inr y" and d: "deweight xs ns = Inr ys'" and e: "ys = y # ys'"
    by (auto split: sum.splits)
  have "fl_le y (Fin 0)" using py_div_len_le0[OF _ y] "1.prems"(3) by simp
  moreover have "length ys' = length xs \<and> (\<forall>y\<in>set ys'. fl_le y (Fin 0))"
    using "1.IH"[OF y d] "1.prems"(2,3) by simp
  ultimately show ?case using e by simp
qed simp_all

lemma length_accumulated: "length (accumulated_v_lengths g ext) = length ext"
  by (simp add: accumulated_v_lengths_def Let_def)

lemma fl_exp_le1: "fl_le x (Fin 0) \<Longrightarrow> fl_le (fl_exp x) (Fin 1)"
  by (cases x) auto

text \<open>The definitions a concrete call of the evaluator unfolds to.\<close>

lemmas like_eval = cal_multiplicity_like_def get_cov_mean_of_single_std_def counts_in_path_def
  truthy_def accumulated_v_lengths_def py_min0_def norm_logpdf_def fl_sub_def len_of_def

text \<open>
  The path \<open>a\<close> extended by \<open>a, b\<close> in the graph of two contigs: the second copy of
  \<open>a\<close> costs \<open>-1250\<close> (weighted by the length 100), the contig \<open>b\<close> is new and
  resets the sum to zero.
\<close>

lemma cal_multiplicity_like_ab:
  "cal_multiplicity_like (default_generator graph_ab) [(''a'', True)] [(''a'', True), (''b'', True)]
      None None None None None True = Inr [Fin (- 25 / 2), Fin 0]"
  by (simp add: like_eval cov_eval upt_rec)

text \<open>
  C1 (as amended). When \<^verbatim>\<open>__cal_multiplicity_like\<close> returns, the sequence has one
  entry per prefix of the proposed extension, and every entry is at most 0 in the
  logarithmic form and at most 1 after exponentiation. (The sequence need not be
  monotone, see the next theorem but one.)
\<close>

theorem cal_multiplicity_like_nonpositive:
  assumes "cal_multiplicity_like g p ext cvc om os sm ss logarithm = Inr xs"
  shows "length xs = length ext \<and> (\<forall>x\<in>set xs. fl_le x (Fin (if logarithm then 0 else 1)))"
proof -
  from assms obtain cnts s_mean s_std lls dw where
    c: "cal_loop g cnts s_mean s_std p (Fin 0) ext = Inr lls"
    and d: "deweight lls (accumulated_v_lengths g ext) = Inr dw"
    and x: "xs = (if logarithm then dw else map fl_exp dw)"
    unfolding cal_multiplicity_like_def Let_def
    by (auto split: sum.splits if_splits prod.splits)
  have l: "length lls = length ext \<and> (\<forall>x\<in>set lls. fl_le x (Fin 0))"
    by (rule cal_loop_le0[OF c])
  have "length dw = length lls \<and> (\<forall>y\<in>set dw. fl_le y (Fin 0))"
    using deweight_le0[OF d] l by (simp add: length_accumulated)
  then show ?thesis using x l by (auto simp: fl_exp_le1)
qed

text \<open>The theorem at the call above.\<close>

theorem cal_multiplicity_like_nonpositive_witness:
  "cal_multiplicity_like (default_generator graph_ab) [(''a'', True)] [(''a'', True), (''b'', True)]
      None None None None None True = Inr [Fin (- 25 / 2), Fin 0]
   \<and> length [Fin (- 25 / 2), Fin 0] = length [(''a'', True), (''b'', True)]
   \<and> fl_le (Fin (- 25 / 2)) (Fin 0) \<and> fl_le (Fin 0) (Fin 0)"
  using cal_multiplicity_like_ab cal_multiplicity_like_nonpositive [OF cal_multiplicity_like_ab]
  by simp

text \<open>
  The claim as stated fails: in the sequence of that call the entry for the longer
  prefix is the larger one, so the sequence is not non-increasing.
\<close>

theorem cal_multiplicity_like_not_monotone:
  "cal_multiplicity_like (default_generator graph_ab) [(''a'', True)] [(''a'', True), (''b'', True)]
      None None None None None True = Inr [Fin (- 25 / 2), Fin 0]
   \<and> \<not> fl_le (Fin 0) (Fin (- 25 / 2))"
  using cal_multiplicity_like_ab by simp

subsection \<open>The stochastic stopping rule\<close>

text \<open>
  C3. Called with the likelihood ratios of an all-zero sequence of logarithms (all
  ratios 1), \<^verbatim>\<open>__heuristic_check_multiplicity\<close> accepts the whole proposed extension
  at the first draw, whatever number below 1 \<^verbatim>\<open>random()\<close> returns: it goes on with
  the path extended by the full extension.
\<close>

theorem stopping_rule_all_zero:
  assumes "proposed_extension \<noteq> []" "rnd 0 < 1"
  shows "heuristic_check_multiplicity g rev_path rnd p proposed_extension not_do_reverse cvc
           (Some (map fl_exp (replicate (length proposed_extension) (Fin 0))))
         = Inr (ExtendPath (p @ proposed_extension) not_do_reverse)"
proof -
  obtain n where n: "length proposed_extension = Suc n"
    using assms(1) by (cases proposed_extension) auto
  have r: "rev (map fl_exp (replicate (Suc n) (Fin 0))) = Fin 1 # replicate n (Fin 1)"
    by (simp add: replicate_append_same)
  have "draw_loop (int (Suc n)) (Fin 0) 0 (rev (map fl_exp (replicate (Suc n) (Fin 0)))) rnd
        = Some (int (Suc n))"
    unfolding r using assms(2) by (simp add: fl_sub_def Let_def)
  then show ?thesis
    using assms(1) n by (simp add: heuristic_check_multiplicity_def py_take_def Let_def)
qed

text \<open>The theorem at an extension of two contigs and draws that are all \<open>1/2\<close>.\<close>

theorem stopping_rule_all_zero_witness:
  "[(''b'', True), (''a'', True)] \<noteq> [] \<and> (1 / 2 :: real) < 1
   \<and> heuristic_check_multiplicity (default_generator graph_ab) rev (\<lambda>i. 1 / 2) [(''a'', True)]
        [(''b'', True), (''a'', True)] False None
        (Some (map fl_exp (replicate (length [(''b'', True), (''a'', True)]) (Fin 0))))
      = Inr (ExtendPath ([(''a'', True)] @ [(''b'', True), (''a'', True)]) False)"
  using stopping_rule_all_zero [of "[(''b'', True), (''a'', True)]" "\<lambda>i. 1 / 2"
     "default_generator graph_ab" rev "[(''a'', True)]" False None]
  by simp

subsection \<open>The single-process search\<close>

lemma sum_list_bump:
  "distinct vs \<Longrightarrow> p \<in> set vs \<Longrightarrow>
     (\<Sum>x\<leftarrow>vs. if x = p then f x + 1 else f x) = (\<Sum>x\<leftarrow>vs. f x) + (1::int)"
proof (induction vs)
  case Nil
  then show ?case by simp
next
  case (Cons a vs)
  show ?case
  proof (cases "a = p")
    case True
    then have "p \<notin> set vs" using Cons.prems(1) by simp
    then have "(\<Sum>x\<leftarrow>vs. if x = p then f x + 1 else f x) = (\<Sum>x\<leftarrow>vs. f x)"
      by (intro arg_cong[where f=sum_list] map_cong) auto
    then show ?thesis using True by simp
  next
    case False
    then show ?thesis using Cons by simp
  qed
qed

lemma insert_variant_fields:
  "num_search (insert_variant p g) = num_search g"
  "force_circular (insert_variant p g) = force_circular g"
  "hetero_chromosome (insert_variant p g) = hetero_chromosome g"
  by (auto simp: insert_variant_def split: option.splits)

lemma insert_variant_set:
  "dom (variants_counts g) = set (variants g) \<Longrightarrow>
     set (variants (insert_variant p g)) = insert p (set (variants g))"
  by (auto simp: insert_variant_def split: option.splits)

lemma insert_variant_catalog:
  assumes "distinct (variants g)" "dom (variants_counts g) = set (variants g)"
  shows "distinct (variants (insert_variant p g))"
    and "dom (variants_counts (insert_variant p g)) = set (variants (insert_variant p g))"
    and "catalog_total (insert_variant p g) = catalog_total g + 1"
proof -
  let ?f = "\<lambda>x. case variants_counts g x of None \<Rightarrow> 0 | Some c \<Rightarrow> int c"
  show "distinct (variants (insert_variant p g))"
    using assms by (auto simp: insert_variant_def split: option.splits)
  show "dom (variants_counts (insert_variant p g)) = set (variants (insert_variant p g))"
    using assms by (auto simp: insert_variant_def split: option.splits)
  show "catalog_total (insert_variant p g) = catalog_total g + 1"
  proof (cases "variants_counts g p")
    case None
    then have "p \<notin> set (variants g)" using assms(2) by auto
    then have "(\<Sum>x\<leftarrow>variants g. case ((variants_counts g)(p \<mapsto> 1)) x of None \<Rightarrow> 0 | Some c \<Rightarrow> int c)
             = (\<Sum>x\<leftarrow>variants g. ?f x)"
      by (intro arg_cong[where f=sum_list] map_cong) auto
    then show ?thesis using None by (simp add: insert_variant_def catalog_total_def)
  next
    case (Some c)
    then have m: "p \<in> set (variants g)" using assms(2) by auto
    have "(\<Sum>x\<leftarrow>variants g. case ((variants_counts g)(p \<mapsto> c + 1)) x of None \<Rightarrow> 0 | Some c \<Rightarrow> int c)
        = (\<Sum>x\<leftarrow>variants g. if x = p then ?f x + 1 else ?f x)"
      by (intro arg_cong[where f=sum_list] map_cong) (use Some in auto)
    also have "\<dots> = (\<Sum>x\<leftarrow>variants g. ?f x) + 1"
      by (rule sum_list_bump[OF assms(1) m])
    finally show ?thesis using Some by (simp add: insert_variant_def catalog_total_def)
  qed
qed

lemma insert_units_inv:
  "uni_inv ns s \<Longrightarrow> count_valid s < ns \<Longrightarrow> uni_inv ns (insert_units xs s)"
proof (induction xs arbitrary: s)
  case Nil
  then show ?case by simp
next
  case (Cons x xs)
  let ?s' = "s\<lparr>count_valid := count_valid s + 1,
                valid_history := valid_history s @ [count_valid s + 1],
                self := insert_variant x (self s)\<rparr>"
  have d: "distinct (variants (self s))" "dom (variants_counts (self s)) = set (variants (self s))"
    using Cons.prems(1) by (auto simp: uni_inv_def)
  have inv': "uni_inv ns ?s'"
    using Cons.prems insert_variant_catalog[OF d, of x]
    by (simp add: uni_inv_def insert_variant_fields)
  show ?case
  proof (cases "count_valid ?s' = num_search (self ?s')")
    case True
    then show ?thesis using inv' by (simp add: Let_def)
  next
    case False
    then have "count_valid ?s' < ns" using inv' by (simp add: uni_inv_def)
    from Cons.IH[OF inv' this] show ?thesis using False by (simp add: Let_def)
  qed
qed

lemma uni_loop_inv:
  "uni_inv ns s \<Longrightarrow> uni_loop circ full dec ts s = Some (Inr s') \<Longrightarrow>
     uni_inv ns s' \<and> count_valid s' = ns"
proof (induction ts arbitrary: s)
  case Nil
  then show ?case by (auto simp: uni_inv_def split: if_splits)
next
  case (Cons t ts)
  show ?case
  proof (cases "count_valid s < num_search (self s)")
    case False
    then show ?thesis using Cons.prems by (auto simp: uni_inv_def)
  next
    case True
    let ?s1 = "s\<lparr>count_search := count_search s + 1\<rparr>"
    have i1: "uni_inv ns ?s1" using Cons.prems(1) by (simp add: uni_inv_def)
    have lt: "count_valid ?s1 < ns" using True Cons.prems(1) by (simp add: uni_inv_def)
    show ?thesis
    proof (cases "(force_circular (self s) \<and> \<not> circ t) \<or> (\<not> hetero_chromosome (self s) \<and> \<not> full t)")
      case inv: True
      then have "uni_loop circ full dec ts ?s1 = Some (Inr s')"
        using Cons.prems(2) True by (simp add: Let_def)
      from Cons.IH[OF i1 this] show ?thesis .
    next
      case ok: False
      then obtain us where
        us: "(if circ t then dec t else Inr [t]) = Inr us"
        and r: "uni_loop circ full dec ts (insert_units us ?s1) = Some (Inr s')"
        using Cons.prems(2) True by (auto simp: Let_def split: sum.splits if_splits)
      from Cons.IH[OF insert_units_inv[OF i1 lt] r] show ?thesis .
    qed
  qed
qed

lemma uni_inv_init:
  "0 \<le> num_search g \<Longrightarrow> variants g = [] \<Longrightarrow> variants_counts g = Map.empty \<Longrightarrow>
     uni_inv (num_search g) \<lparr>self = g, count_search = 0, count_valid = 0, valid_history = []\<rparr>"
  by (simp add: uni_inv_def catalog_total_def)

lemma insert_units_fields:
  "num_search (self (insert_units xs s)) = num_search (self s)"
  "force_circular (self (insert_units xs s)) = force_circular (self s)"
  "hetero_chromosome (self (insert_units xs s)) = hetero_chromosome (self s)"
  by (induction xs arbitrary: s) (auto simp: Let_def insert_variant_fields)

lemma insert_units_count: "xs \<noteq> [] \<Longrightarrow> count_valid s + 1 \<le> count_valid (insert_units xs s)"
proof (induction xs arbitrary: s)
  case Nil
  then show ?case by simp
next
  case (Cons x xs)
  let ?s' = "s\<lparr>count_valid := count_valid s + 1,
                valid_history := valid_history s @ [count_valid s + 1],
                self := insert_variant x (self s)\<rparr>"
  show ?case
  proof (cases "xs = []")
    case True
    then show ?thesis by (simp add: Let_def)
  next
    case False
    from Cons.IH[OF False, of ?s'] show ?thesis by (simp add: Let_def)
  qed
qed

lemma uni_loop_progress:
  assumes "\<forall>t\<in>set ts. meets_constraints (self s) circ full t \<and>
             (circ t \<longrightarrow> (\<exists>us. dec t = Inr us \<and> us \<noteq> []))"
    and "num_search (self s) - count_valid s \<le> int (length ts)"
  shows "\<exists>s'. uni_loop circ full dec ts s = Some (Inr s')"
  using assms
proof (induction ts arbitrary: s)
  case Nil
  then show ?case by simp
next
  case (Cons t ts)
  show ?case
  proof (cases "count_valid s < num_search (self s)")
    case False
    then show ?thesis by simp
  next
    case True
    let ?s1 = "s\<lparr>count_search := count_search s + 1\<rparr>"
    have ok: "\<not> ((force_circular (self s) \<and> \<not> circ t) \<or> (\<not> hetero_chromosome (self s) \<and> \<not> full t))"
      using Cons.prems(1) by (auto simp: meets_constraints_def)
    obtain us where us: "(if circ t then dec t else Inr [t]) = Inr us" "us \<noteq> []"
      using Cons.prems(1) by (cases "circ t") auto
    let ?s2 = "insert_units us ?s1"
    have f: "num_search (self ?s2) = num_search (self s)"
      "force_circular (self ?s2) = force_circular (self s)"
      "hetero_chromosome (self ?s2) = hetero_chromosome (self s)"
      by (simp_all add: insert_units_fields)
    have c: "count_valid s + 1 \<le> count_valid ?s2"
      using insert_units_count[OF us(2), of ?s1] by simp
    have a1: "\<forall>t\<in>set ts. meets_constraints (self ?s2) circ full t \<and>
             (circ t \<longrightarrow> (\<exists>us. dec t = Inr us \<and> us \<noteq> []))"
      using Cons.prems(1) f by (simp add: meets_constraints_def)
    have a2: "num_search (self ?s2) - count_valid ?s2 \<le> int (length ts)"
      using Cons.prems(2) c f by simp
    from Cons.IH[OF a1 a2] obtain s' where "uni_loop circ full dec ts ?s2 = Some (Inr s')" by blast
    then show ?thesis using True ok us(1) by (auto simp: Let_def)
  qed
qed

text \<open>
  C10 (as amended). For a target \<^verbatim>\<open>num_search\<close> that is not negative and a catalog
  that is empty at the start: when the single-process search ends, the count of valid
  variants equals \<^verbatim>\<open>num_search\<close>, every value the count has taken is at most
  \<^verbatim>\<open>num_search\<close> (also when a traversal is decomposed into several units), and the
  occurrence counts of the catalog sum to \<^verbatim>\<open>num_search\<close>. The search does end when
  the traversals include at least \<^verbatim>\<open>num_search\<close> that pass the filter and the
  decomposer returns one unit or more for each circular one.
\<close>

theorem uni_count_valid_bounded:
  assumes "0 \<le> num_search g" "variants g = []" "variants_counts g = Map.empty"
  shows "(gen_heuristic_paths_uni circ full dec ts g = Some (Inr s) \<longrightarrow>
            count_valid s = num_search g \<and> list_all (\<lambda>c. c \<le> num_search g) (valid_history s) \<and>
            catalog_total (self s) = num_search g)
       \<and> ((\<forall>t\<in>set ts. meets_constraints g circ full t \<and>
               (circ t \<longrightarrow> (\<exists>us. dec t = Inr us \<and> us \<noteq> [])))
            \<and> num_search g \<le> int (length ts)
          \<longrightarrow> (\<exists>s'. gen_heuristic_paths_uni circ full dec ts g = Some (Inr s')))"
proof (intro conjI impI)
  assume r: "gen_heuristic_paths_uni circ full dec ts g = Some (Inr s)"
  have "uni_inv (num_search g) s \<and> count_valid s = num_search g"
    using uni_loop_inv[OF uni_inv_init[OF assms]] r unfolding gen_heuristic_paths_uni_def by blast
  then show "count_valid s = num_search g" 
    and "list_all (\<lambda>c. c \<le> num_search g) (valid_history s)"
    and "catalog_total (self s) = num_search g"
    by (auto simp: uni_inv_def)
next
  assume a: "(\<forall>t\<in>set ts. meets_constraints g circ full t \<and>
               (circ t \<longrightarrow> (\<exists>us. dec t = Inr us \<and> us \<noteq> [])))
            \<and> num_search g \<le> int (length ts)"
  show "\<exists>s'. gen_heuristic_paths_uni circ full dec ts g = Some (Inr s')"
    unfolding gen_heuristic_paths_uni_def
    by (rule uni_loop_progress) (use a in auto)
qed

text \<open>
  The theorem at a target of three, with every traversal split into two units: the
  third insertion stops the search in the middle of the second traversal.
\<close>

theorem uni_count_valid_bounded_witness:
  "\<exists>s. gen_heuristic_paths_uni (\<lambda>p. True) (\<lambda>p. True) (\<lambda>p. Inr [p, p])
         [[(''a'', True)], [(''b'', True)], [(''a'', True)]] demo3 = Some (Inr s)
       \<and> count_valid s = 3 \<and> list_all (\<lambda>c. c \<le> 3) (valid_history s) \<and> catalog_total (self s) = 3"
proof -
  have h: "0 \<le> num_search demo3" "variants demo3 = []" "variants_counts demo3 = Map.empty"
    by (simp_all add: demo3_def default_generator_def use_contig_coverage_from_assembly_graph_def)
  have n: "num_search demo3 = 3" by (simp add: demo3_def)
  note t = uni_count_valid_bounded [OF h, of "\<lambda>p. True" "\<lambda>p. True" "\<lambda>p. Inr [p, p]"
      "[[(''a'', True)], [(''b'', True)], [(''a'', True)]]"]
  have "\<exists>s'. gen_heuristic_paths_uni (\<lambda>p. True) (\<lambda>p. True) (\<lambda>p. Inr [p, p])
         [[(''a'', True)], [(''b'', True)], [(''a'', True)]] demo3 = Some (Inr s')"
    using t by (simp add: meets_constraints_def n)
  then obtain s' where s': "gen_heuristic_paths_uni (\<lambda>p. True) (\<lambda>p. True) (\<lambda>p. Inr [p, p])
         [[(''a'', True)], [(''b'', True)], [(''a'', True)]] demo3 = Some (Inr s')" by blast
  show ?thesis using t[of s'] s' n by auto
qed

text \<open>
  The claim as stated fails for a negative target, which the constructor accepts: the
  search ends at once with the count 0, above the target \<open>-1\<close>, and an empty catalog.
\<close>

theorem uni_negative_num_search:
  "(case gen_heuristic_paths_uni (\<lambda>p. True) (\<lambda>p. True) (\<lambda>p. Inr [p]) [[(''a'', True)]]
           ((default_generator graph_ab)\<lparr>num_search := - 1\<rparr>) of
      Some (Inr s) \<Rightarrow> count_valid s = 0 \<and> num_search (self s) = - 1 \<and> catalog_total (self s) = 0
    | _ \<Rightarrow> False)"
  by (simp add: gen_heuristic_paths_uni_def catalog_total_def default_generator_def
        use_contig_coverage_from_assembly_graph_def)

subsection \<open>The example of five contigs, evaluated\<close>

text \<open>
  The steps of the decomposer on the traversal \<open>canon_path\<close>, one fact per step.
\<close>

lemma crpqs_u1: "unique_vne_list canon_path =
   [(''c'', False), (''p'', False), (''q'', False), (''r'', False), (''s'', False)]"
  by (simp add: unique_vne_list_def canon_path_def)

lemma crpqs_cs: "candidate_single_copy_vs homo_generator = {''c'', ''p'', ''q''}"
  by (auto simp: homo_generator_def estimate_single_copy_vertices_def default_generator_def
        use_contig_coverage_from_assembly_graph_def graph_crpqs_def)

lemma crpqs_hg_fields:
  "min_unit_similarity homo_generator = 85 / 100"
  "hetero_chromosome homo_generator = False"
  "force_circular homo_generator = True"
  "num_search homo_generator = 2"
  "variants homo_generator = []"
  "variants_counts homo_generator = Map.empty"
  "vertex_info homo_generator = graph_crpqs"
  by (simp_all add: homo_generator_def estimate_single_copy_vertices_def default_generator_def
        use_contig_coverage_from_assembly_graph_def)

lemma crpqs_lens:
  "len_of homo_generator ''c'' = 1000" "len_of homo_generator ''p'' = 1"
  "len_of homo_generator ''q'' = 1" "len_of homo_generator ''r'' = 10"
  "len_of homo_generator ''s'' = 10"
  by (simp_all add: len_of_def crpqs_hg_fields graph_crpqs_def)

lemma crpqs_cnt:
  "count_list canon_path (''c'', False) = 2" "count_list canon_path (''p'', False) = 1"
  "count_list canon_path (''q'', False) = 1" "count_list canon_path (''r'', False) = 2"
  "count_list canon_path (''s'', False) = 2"
  by (simp_all add: canon_path_def)

lemma crpqs_cp: "copies_of canon_path = [1, 2]"
  by (simp add: copies_of_def crpqs_u1 crpqs_cnt)

lemma crpqs_ctv:
  "copy_to_vne canon_path (Suc 0) = [(''p'', False), (''q'', False)]"
  "copy_to_vne canon_path 2 = [(''c'', False), (''r'', False), (''s'', False)]"
  by (simp_all add: copy_to_vne_def crpqs_u1 crpqs_cnt)

lemma crpqs_len8: "length canon_path = 8"
  by (simp add: canon_path_def)

lemma crpqs_ln: "length_names canon_path = [''c'', ''p'', ''q'', ''r'', ''s'']"
  by (simp add: length_names_def crpqs_u1)

lemma crpqs_csv: "candidate_sc_vertices homo_generator canon_path = [''c'', ''p'', ''q'']"
  unfolding candidate_sc_vertices_def crpqs_u1 crpqs_cs by simp

lemma crpqs_sl: "sum_lens homo_generator canon_path = [2, 1000]"
  by (simp add: sum_lens_def crpqs_csv crpqs_cp crpqs_ctv crpqs_cs crpqs_lens)

lemma crpqs_upts: "[0..<2] = [0, Suc 0]" "[Suc 0..<2] = [Suc 0]" "[0..<8] = [0, 1, 2, 3, 4, 5, 6, 7]"
  by (simp_all add: upt_rec)

lemma crpqs_cnu: "candidate_num_units homo_generator canon_path = Inr [2]"
  unfolding candidate_num_units_def crpqs_ln crpqs_cp crpqs_sl crpqs_hg_fields Let_def
  by (simp add: graph_crpqs_def crpqs_upts)

lemma crpqs_tbl: "total_base_len homo_generator canon_path = Inr 2042"
  by (simp add: total_base_len_def np_mul_def v_lengths_array_def crpqs_ln crpqs_u1 crpqs_cnt crpqs_lens)

lemma crpqs_occ: "occurrences canon_path (''c'', False) = [0, 4]"
  unfolding occurrences_def crpqs_len8 crpqs_upts by (simp add: canon_path_def)

lemma crpqs_cst: "candidate_starts homo_generator canon_path 2 = [(''c'', False)]"
  unfolding candidate_starts_def crpqs_csv crpqs_ctv by simp

lemma crpqs_ssi: "sorted_sne_indices homo_generator canon_path 2 = [((''c'', False), [0, 4])]"
  unfolding sorted_sne_indices_def crpqs_cst by (simp add: crpqs_occ)

lemma crpqs_kept: "kept_sne_indices homo_generator canon_path 2 = [((''c'', False), [0, 4])]"
  unfolding kept_sne_indices_def crpqs_ssi crpqs_len8 by (simp add: consecutive_ends_def)

lemma crpqs_un: "units_of canon_path [0, 4] =
   [[(''c'', False), (''s'', False), (''p'', False), (''r'', False)],
    [(''c'', False), (''s'', False), (''q'', False), (''r'', False)]]"
  by (simp add: units_of_def canon_path_def)

lemma crpqs_vs: "variants_shared canon_path
   [[(''c'', False), (''s'', False), (''p'', False), (''r'', False)],
    [(''c'', False), (''s'', False), (''q'', False), (''r'', False)]] = [1, 0, 0, 1, 1]"
  unfolding variants_shared_def crpqs_u1 by simp

lemma crpqs_shl: "shared_len homo_generator canon_path 2042 2
   [[(''c'', False), (''s'', False), (''p'', False), (''r'', False)],
    [(''c'', False), (''s'', False), (''q'', False), (''r'', False)]] = Inr (2040 / 2042)"
  unfolding shared_len_def crpqs_vs v_lengths_array_def crpqs_ln by (simp add: np_mul_def crpqs_lens)

lemma crpqs_upt4: "[0..<4] = [0, 1, 2, 3]"
  by (simp add: upt_rec)

lemma crpqs_rot4: "rotate 0 [a, b, c, d] = [a, b, c, d]" "rotate 1 [a, b, c, d] = [b, c, d, a]"
  "rotate 2 [a, b, c, d] = [c, d, a, b]" "rotate 3 [a, b, c, d] = [d, a, b, c]"
  by (simp_all add: rotate_def eval_nat_numeral)

lemma crpqs_std_p: "standardized_path_circ unit_p = unit_p"
  unfolding standardized_path_circ_def unit_p_def reverse_path_def
  by (simp add: crpqs_upt4 crpqs_rot4)

lemma crpqs_std_q: "standardized_path_circ unit_q = unit_q"
  unfolding standardized_path_circ_def unit_q_def reverse_path_def
  by (simp add: crpqs_upt4 crpqs_rot4)

lemma crpqs_un_b: "units_of canon_path [0, 4] = [unit_p, unit_q]"
  by (simp add: crpqs_un unit_p_def unit_q_def)

lemma crpqs_shl_b: "shared_len homo_generator canon_path 2042 2 [unit_p, unit_q] = Inr (2040 / 2042)"
  using crpqs_shl by (simp add: unit_p_def unit_q_def)

lemma crpqs_ple: "unit_p \<le> unit_q"
  unfolding unit_p_def unit_q_def by simp

lemma crpqs_sch: "schemes_of_starts homo_generator standardized_path_circ canon_path 2042 2
     [((''c'', False), [0, 4])] [] = Inr [[unit_p, unit_q]]"
  unfolding schemes_of_starts.simps Let_def crpqs_un_b crpqs_shl_b by (simp add: crpqs_std_p crpqs_std_q crpqs_ple crpqs_hg_fields)

lemma crpqs_qs: "qualified_schemes homo_generator standardized_path_circ canon_path 2042 [2] []
    = Inr [[unit_p, unit_q]]"
  unfolding qualified_schemes.simps crpqs_kept crpqs_sch by simp

lemma crpqs_rot8: "rotate 0 [a, b, c, d, e, f, g, h] = [a, b, c, d, e, f, g, h]"
  "rotate 1 [a, b, c, d, e, f, g, h] = [b, c, d, e, f, g, h, a]"
  "rotate 2 [a, b, c, d, e, f, g, h] = [c, d, e, f, g, h, a, b]"
  "rotate 3 [a, b, c, d, e, f, g, h] = [d, e, f, g, h, a, b, c]"
  "rotate 4 [a, b, c, d, e, f, g, h] = [e, f, g, h, a, b, c, d]"
  "rotate 5 [a, b, c, d, e, f, g, h] = [f, g, h, a, b, c, d, e]"
  "rotate 6 [a, b, c, d, e, f, g, h] = [g, h, a, b, c, d, e, f]"
  "rotate 7 [a, b, c, d, e, f, g, h] = [h, a, b, c, d, e, f, g]"
  by (simp_all add: rotate_def eval_nat_numeral)

lemma crpqs_sp_long: "read_sub_paths short_reads canon_path = short_reads"
  unfolding read_sub_paths_def occurs_in_circle_def canon_path_def short_reads_def reverse_path_def
  by (simp add: crpqs_upts crpqs_rot8)

lemma crpqs_sp_p: "read_sub_paths short_reads unit_p =
    [[(''c'', False), (''s'', False)], [(''s'', False), (''p'', False)], [(''r'', False), (''c'', False)]]"
  unfolding read_sub_paths_def occurs_in_circle_def unit_p_def short_reads_def reverse_path_def
  by (simp add: crpqs_upt4 crpqs_rot4)

lemma crpqs_sp_q: "read_sub_paths short_reads unit_q =
    [[(''c'', False), (''s'', False)], [(''s'', False), (''q'', False)], [(''r'', False), (''c'', False)]]"
  unfolding read_sub_paths_def occurs_in_circle_def unit_q_def short_reads_def reverse_path_def
  by (simp add: crpqs_upt4 crpqs_rot4)

lemma crpqs_sel: "select_units (read_sub_paths short_reads) canon_path [[unit_p, unit_q]] = [unit_p, unit_q]"
  unfolding select_units_def collect_units.simps Let_def list.map list.set crpqs_sp_long crpqs_sp_p crpqs_sp_q
  by (simp add: short_reads_def)

lemma crpqs_dec: "decompose_hetero_units homo_generator standardized_path_circ (read_sub_paths short_reads)
    canon_path = Inr [unit_p, unit_q]"
  unfolding decompose_hetero_units_def crpqs_len8 crpqs_cnu crpqs_tbl by (simp add: crpqs_qs crpqs_sel del: qualified_schemes.simps)

lemma crpqs_circ_long: "is_circular_path homo_generator canon_path"
  unfolding is_circular_path_def crpqs_hg_fields by (simp add: canon_path_def graph_crpqs_def)

lemma crpqs_full_long: "is_fully_covered_by homo_generator canon_path"
  unfolding is_fully_covered_by_def crpqs_hg_fields by (simp add: canon_path_def graph_crpqs_def)

lemma crpqs_not_full_units:
  "\<not> is_fully_covered_by homo_generator unit_p" "\<not> is_fully_covered_by homo_generator unit_q"
  unfolding is_fully_covered_by_def crpqs_hg_fields
  by (simp_all add: unit_p_def unit_q_def graph_crpqs_def)

lemma crpqs_units_differ: "unit_p \<noteq> unit_q" "unit_q \<noteq> unit_p"
  by (simp_all add: unit_p_def unit_q_def)

lemma crpqs_homo_run:
  "\<exists>s. gen_heuristic_paths_uni (is_circular_path homo_generator) (is_fully_covered_by homo_generator)
        (decompose_hetero_units homo_generator standardized_path_circ (read_sub_paths short_reads))
        [canon_path] homo_generator = Some (Inr s)
      \<and> variants (self s) = [unit_p, unit_q] \<and> \<not> hetero_chromosome (self s)"
  unfolding gen_heuristic_paths_uni_def
  by (simp add: crpqs_hg_fields crpqs_circ_long crpqs_full_long crpqs_dec insert_variant_def crpqs_units_differ Let_def)

subsection \<open>The hetero-unit decomposer\<close>

lemma collect_units_filter:
  "collect_units sub_paths p schemes acc
     = acc @ concat (filter (loses_no_sub_path sub_paths p) schemes)"
proof (induction schemes arbitrary: acc)
  case Nil
  then show ?case by simp
next
  case (Cons s schemes)
  have "(set (sub_paths p) - \<Union> (set (map (\<lambda>this_unit. set (sub_paths this_unit)) s)) \<noteq> {})
        = (\<not> loses_no_sub_path sub_paths p s)"
    by (auto simp: loses_no_sub_path_def)
  then show ?case using Cons.IH by (simp add: Let_def)
qed

text \<open>
  C7. When the decomposer returns, the result is the original path alone, or it is
  the concatenation of the units of exactly those qualifying schemes that lose no
  sub-path of the original path: a scheme for which the sub-paths of the original are
  not a subset of the union of the sub-paths of its units gives no unit, and every
  returned unit belongs to a scheme whose union covers the sub-paths of the original.
\<close>

theorem decompose_units_from_covering_schemes:
  assumes "decompose_hetero_units g canon sub_paths p = Inr res"
  shows "res = [p] \<or>
         (\<exists>base_len cands schemes.
            candidate_num_units g p = Inr cands \<and> total_base_len g p = Inr base_len \<and>
            qualified_schemes g canon p base_len cands [] = Inr schemes \<and>
            res = concat (filter (loses_no_sub_path sub_paths p) schemes) \<and>
            (\<forall>u\<in>set res. \<exists>scheme\<in>set schemes. u \<in> set scheme \<and> loses_no_sub_path sub_paths p scheme))"
proof (cases "res = [p]")
  case True
  then show ?thesis by simp
next
  case False
  from assms False obtain cands base_len schemes where
    c: "candidate_num_units g p = Inr cands" and b: "total_base_len g p = Inr base_len"
    and q: "qualified_schemes g canon p base_len cands [] = Inr schemes"
    and r: "res = select_units sub_paths p schemes"
    unfolding decompose_hetero_units_def
    by (auto split: if_splits sum.splits)
  have r': "res = concat (filter (loses_no_sub_path sub_paths p) schemes)"
    using r False by (auto simp: select_units_def collect_units_filter Let_def split: if_splits)
  have "\<forall>u\<in>set res. \<exists>scheme\<in>set schemes. u \<in> set scheme \<and> loses_no_sub_path sub_paths p scheme"
    unfolding r' by auto
  then show ?thesis using c b q r' by blast
qed

text \<open>The theorem at the traversal of the example, which has one scheme of two units.\<close>

theorem decompose_units_from_covering_schemes_witness:
  "decompose_hetero_units homo_generator standardized_path_circ (read_sub_paths short_reads)
      canon_path = Inr [unit_p, unit_q]
   \<and> qualified_schemes homo_generator standardized_path_circ canon_path 2042 [2] []
      = Inr [[unit_p, unit_q]]
   \<and> [unit_p, unit_q]
      = concat (filter (loses_no_sub_path (read_sub_paths short_reads) canon_path) [[unit_p, unit_q]])"
proof -
  have "[unit_p, unit_q] \<noteq> [canon_path]" by simp
  then show ?thesis
    using decompose_units_from_covering_schemes [OF crpqs_dec] crpqs_dec crpqs_qs crpqs_cnu crpqs_tbl by auto
qed

subsection \<open>The decomposer on repeated units\<close>

text \<open>A path in which every oriented contig occurs the same number of times.\<close>

lemma set_unique_vne_list: "set (unique_vne_list p) = set p"
  by (simp add: unique_vne_list_def)

lemma distinct_unique_vne_list: "distinct (unique_vne_list p)"
  by (simp add: unique_vne_list_def)

lemma unique_vne_list_Nil: "unique_vne_list p = [] \<longleftrightarrow> p = []"
  using set_unique_vne_list[of p] by (metis set_empty)

lemma distinct_count_list: "distinct xs \<Longrightarrow> x \<in> set xs \<Longrightarrow> count_list xs x = 1"
  by (induction xs) (auto simp: count_list_0_iff)

lemma remdups_const:
  "xs \<noteq> [] \<Longrightarrow> \<forall>x\<in>set xs. f x = c \<Longrightarrow> remdups (map f xs) = [c]"
proof (induction xs)
  case Nil
  then show ?case by simp
next
  case (Cons a xs)
  show ?case
  proof (cases "xs = []")
    case True
    then show ?thesis using Cons.prems by simp
  next
    case False
    then have "remdups (map f xs) = [c]" using Cons by simp
    moreover have "f a \<in> set (map f xs)" using False Cons.prems(2)
      by (cases xs) auto
    ultimately show ?thesis using Cons.prems(2) by simp
  qed
qed

text \<open>A path in which every oriented contig occurs \<open>c\<close> times.\<close>

lemma uniform_copies:
  assumes "p \<noteq> []" "\<forall>x\<in>set p. count_list p x = c"
  shows "copies_of p = [c]" and "copy_to_vne p c = unique_vne_list p"
proof -
  have ne: "unique_vne_list p \<noteq> []" using assms(1) by (simp add: unique_vne_list_Nil)
  have all: "\<forall>x\<in>set (unique_vne_list p). count_list p x = c"
    using assms(2) by (simp add: set_unique_vne_list)
  show "copies_of p = [c]"
    unfolding copies_of_def remdups_const[OF ne all] by simp
  show "copy_to_vne p c = unique_vne_list p"
    unfolding copy_to_vne_def using all by (intro filter_True) auto
qed

lemma sum_list_pos_lens:
  fixes xs :: "vne list"
  assumes "xs \<noteq> []" "\<forall>x\<in>set xs. 0 < len_of g (fst x)"
  shows "0 < sum_list (map (\<lambda>(v_n, v_e). len_of g v_n) xs)"
  using assms by (induction xs) (auto simp: case_prod_unfold)

lemma uniform_sum_lens:
  assumes "p \<noteq> []" "\<forall>x\<in>set p. count_list p x = c"
    and pos: "\<forall>x\<in>set p. 0 < len_of g (fst x)"
  shows "\<exists>s. sum_lens g p = [s] \<and> 0 < s"
proof (cases "candidate_sc_vertices g p \<noteq> []")
  case True
  let ?xs = "filter (\<lambda>(v_n, v_e). v_n \<in> candidate_single_copy_vs g) (unique_vne_list p)"
  from True obtain v where v: "v \<in> set (map fst (unique_vne_list p))" "v \<in> candidate_single_copy_vs g"
    unfolding candidate_sc_vertices_def by (metis (mono_tags, lifting) filter_False set_remdups)
  then have ne: "?xs \<noteq> []" by (auto simp: filter_empty_conv)
  have "\<forall>x\<in>set ?xs. 0 < len_of g (fst x)" using pos by (auto simp: set_unique_vne_list)
  then have "0 < sum_list (map (\<lambda>(v_n, v_e). len_of g v_n) ?xs)"
    by (rule sum_list_pos_lens[OF ne])
  then show ?thesis
    using True by (simp add: sum_lens_def uniform_copies[OF assms(1,2)])
next
  case False
  have ne: "unique_vne_list p \<noteq> []" using assms(1) by (simp add: unique_vne_list_Nil)
  have "\<forall>x\<in>set (unique_vne_list p). 0 < len_of g (fst x)" using pos by (simp add: set_unique_vne_list)
  then have "0 < sum_list (map (\<lambda>(v_n, v_e). len_of g v_n) (unique_vne_list p))"
    by (rule sum_list_pos_lens[OF ne])
  then show ?thesis
    using False by (simp add: sum_lens_def uniform_copies[OF assms(1,2)])
qed

lemma set_length_names: "set (length_names p) = fst ` set p"
  by (simp add: length_names_def set_unique_vne_list)

lemma uniform_candidate_num_units:
  assumes "p \<noteq> []" "\<forall>x\<in>set p. count_list p x = c"
    and ing: "\<forall>x\<in>set p. map_of (vertex_info g) (fst x) \<noteq> None"
    and pos: "\<forall>x\<in>set p. 0 < len_of g (fst x)"
  shows "candidate_num_units g p = Inr (if c > 1 \<and> min_unit_similarity g \<le> 1 then [c] else [])"
proof -
  obtain s where s: "sum_lens g p = [s]" "0 < s"
    using uniform_sum_lens[OF assms(1,2) pos] by blast
  have c0: "0 < c" using assms(1,2) by (cases p) auto
  have nokey: "\<not> (\<exists>v\<in>set (length_names p). map_of (vertex_info g) v = None)"
    using ing by (auto simp: set_length_names)
  have w: "real (c * s) / real (c * s) = 1" using s(2) c0 by simp
  show ?thesis
    unfolding candidate_num_units_def Let_def uniform_copies(1)[OF assms(1,2)] s(1)
    using nokey s(2) c0 w by (simp add: less_eq_real_def)
qed

lemma decompose_distinct:
  assumes "distinct p"
    and ing: "\<forall>x\<in>set p. map_of (vertex_info g) (fst x) \<noteq> None"
    and pos: "\<forall>x\<in>set p. 0 < len_of g (fst x)"
  shows "decompose_hetero_units g canon sub_paths p = Inr [p]"
proof (cases "length p < 4")
  case True
  then show ?thesis by (simp add: decompose_hetero_units_def)
next
  case False
  then have ne: "p \<noteq> []" by auto
  have one: "\<forall>x\<in>set p. count_list p x = 1"
    using assms(1) by (simp add: distinct_count_list)
  have "candidate_num_units g p = Inr []"
    using uniform_candidate_num_units[OF ne one ing pos] by simp
  then show ?thesis using False by (simp add: decompose_hetero_units_def)
qed


text \<open>Repetitions of a unit.\<close>

lemma count_list_concat_replicate:
  "count_list (concat (replicate m u)) x = m * count_list u x"
  by (induction m) simp_all

lemma length_concat_replicate: "length (concat (replicate m u)) = m * length u"
  by (induction m) simp_all

lemma set_concat_replicate: "0 < m \<Longrightarrow> set (concat (replicate m u)) = set u"
  by (cases m) auto

lemma repeated_uniform:
  assumes "distinct u" "0 < m"
  shows "\<forall>x\<in>set (concat (replicate m u)). count_list (concat (replicate m u)) x = m"
  using assms by (simp add: set_concat_replicate count_list_concat_replicate distinct_count_list)

lemma nth_concat_replicate:
  "t < m * length u \<Longrightarrow> concat (replicate m u) ! t = u ! (t mod length u)"
proof (induction m arbitrary: t)
  case 0
  then show ?case by simp
next
  case (Suc m)
  show ?case
  proof (cases "t < length u")
    case True
    then show ?thesis by (simp add: nth_append)
  next
    case False
    then have "t - length u < m * length u" using Suc.prems by simp
    from Suc.IH[OF this] show ?thesis using False
      by (simp add: nth_append le_mod_geq)
  qed
qed

lemma drop_units:
  "j \<le> m \<Longrightarrow> drop (j * length u) (concat (replicate m u)) = concat (replicate (m - j) u)"
proof (induction j arbitrary: m)
  case 0
  then show ?case by simp
next
  case (Suc j)
  then obtain m' where m: "m = Suc m'" by (cases m) auto
  then have "j \<le> m'" using Suc.prems by simp
  from Suc.IH[OF this] show ?case by (simp add: m)
qed

lemma unit_slice:
  assumes "i < length u" "Suc j < m"
  shows "take (length u) (drop (i + j * length u) (concat (replicate m u))) = rotate i u"
proof -
  obtain n where n: "m - j = Suc (Suc n)" using assms(2)
    by (metis Suc_diff_Suc Suc_lessD less_imp_Suc_add add_diff_cancel_left' zero_less_diff gr0_implies_Suc)
  have "drop (i + j * length u) (concat (replicate m u))
      = drop i (drop (j * length u) (concat (replicate m u)))"
    by (simp add: add.commute)
  also have "\<dots> = drop i (concat (replicate (m - j) u))"
    using assms(2) by (simp add: drop_units)
  also have "\<dots> = drop i u @ u @ concat (replicate n u)"
    using assms(1) by (simp add: n)
  finally show ?thesis using assms(1)
    by (simp add: rotate_drop_take min_def)
qed

lemma last_slice:
  assumes "i < length u" "0 < m"
  shows "drop (i + (m - 1) * length u) (concat (replicate m u)) @ take i (concat (replicate m u))
       = rotate i u"
proof -
  obtain m' where m: "m = Suc m'" using assms(2) by (cases m) auto
  have "drop (i + (m - 1) * length u) (concat (replicate m u))
      = drop i (drop ((m - 1) * length u) (concat (replicate m u)))"
    by (simp add: add.commute)
  also have "\<dots> = drop i (concat (replicate (m - (m - 1)) u))"
    by (simp add: drop_units)
  also have "\<dots> = drop i u" by (simp add: m)
  finally show ?thesis using assms(1) by (auto simp: m rotate_drop_take)
qed

lemma occurrences_repeated:
  assumes "distinct u" "i < length u"
  shows "occurrences (concat (replicate m u)) (u ! i) = map (\<lambda>j. i + j * length u) [0..<m]"
proof -
  let ?k = "length u"
  have k: "0 < ?k" using assms(2) by (cases u) auto
  have f: "occurrences (concat (replicate m u)) (u ! i) = filter (\<lambda>t. t mod ?k = i) [0..<m * ?k]"
    unfolding occurrences_def length_concat_replicate
  proof (rule filter_cong[OF refl])
    fix t assume "t \<in> set [0..<m * ?k]"
    then have t: "t < m * ?k" by simp
    have "t mod ?k < ?k" using k by simp
    then show "(concat (replicate m u) ! t = u ! i) = (t mod ?k = i)"
      using nth_concat_replicate[OF t] assms by (simp add: nth_eq_iff_index_eq)
  qed
  have s1: "sorted (filter (\<lambda>t. t mod ?k = i) [0..<m * ?k])" by (simp add: sorted_wrt_filter)
  have d1: "distinct (filter (\<lambda>t. t mod ?k = i) [0..<m * ?k])" by simp
  have mono: "strict_mono (\<lambda>j. i + j * ?k)" using k by (simp add: strict_mono_def)
  have s2: "sorted (map (\<lambda>j. i + j * ?k) [0..<m])"
    by (simp add: sorted_map sorted_wrt_iff_nth_less)
  have d2: "distinct (map (\<lambda>j. i + j * ?k) [0..<m])"
    using k by (auto simp: distinct_map inj_on_def)
  have st: "set (filter (\<lambda>t. t mod ?k = i) [0..<m * ?k]) = set (map (\<lambda>j. i + j * ?k) [0..<m])"
  proof (intro set_eqI iffI)
    fix t assume "t \<in> set (filter (\<lambda>t. t mod ?k = i) [0..<m * ?k])"
    then have t: "t < m * ?k" "t mod ?k = i" by auto
    have "t div ?k < m" using t(1) k by (simp add: less_mult_imp_div_less)
    moreover have "t = i + (t div ?k) * ?k" using t(2) by (metis add.commute div_mult_mod_eq)
    ultimately show "t \<in> set (map (\<lambda>j. i + j * ?k) [0..<m])" by auto
  next
    fix t assume "t \<in> set (map (\<lambda>j. i + j * ?k) [0..<m])"
    then obtain j where j: "j < m" "t = i + j * ?k" by auto
    have "i + j * ?k < Suc j * ?k" using assms(2) by simp
    also have "\<dots> \<le> m * ?k" using j(1) by (simp only: mult_le_mono1 Suc_leI)
    finally have "t < m * ?k" using j(2) by simp
    then show "t \<in> set (filter (\<lambda>t. t mod ?k = i) [0..<m * ?k])"
      using j(2) assms(2) by simp
  qed
  show ?thesis unfolding f
    by (rule sorted_distinct_set_unique[OF s1 d1 s2 d2 st])
qed

lemma units_of_repeated:
  assumes "i < length u" "0 < m"
  shows "units_of (concat (replicate m u)) (map (\<lambda>j. i + j * length u) [0..<m])
       = replicate m (rotate i u)"
proof -
  let ?k = "length u"
  let ?f = "\<lambda>j. i + j * ?k"
  let ?p = "concat (replicate m u)"
  obtain m' where m: "m = Suc m'" using assms(2) by (cases m) auto
  have b: "butlast (map ?f [0..<m]) = map ?f [0..<m']" by (simp add: m)
  have t: "tl (map ?f [0..<m]) = map (\<lambda>j. ?f (Suc j)) [0..<m']"
    by (simp add: m upt_rec[of 0] map_Suc_upt[symmetric] del: upt_Suc)
  have z: "zip (butlast (map ?f [0..<m])) (tl (map ?f [0..<m]))
         = map (\<lambda>j. (?f j, ?f (Suc j))) [0..<m']"
    unfolding b t by (simp add: zip_map_map zip_same_conv_map)
  have mid: "map (\<lambda>(from_id, to_id). take (to_id - from_id) (drop from_id ?p))
               (map (\<lambda>j. (?f j, ?f (Suc j))) [0..<m']) = replicate m' (rotate i u)"
  proof -
    have "map (\<lambda>(from_id, to_id). take (to_id - from_id) (drop from_id ?p))
               (map (\<lambda>j. (?f j, ?f (Suc j))) [0..<m'])
        = map (\<lambda>j. rotate i u) [0..<m']"
      using unit_slice[OF assms(1), of _ m] by (simp add: m)
    then show ?thesis by (simp add: map_replicate_const)
  qed
  have l: "last (map ?f [0..<m]) = i + (m - 1) * ?k" by (simp add: m)
  have h: "hd (map ?f [0..<m]) = i" by (simp add: m upt_rec[of 0] del: upt_Suc)
  show ?thesis
    unfolding units_of_def z mid l h last_slice[OF assms]
    by (simp add: m replicate_append_same)
qed


lemma count_list_rotate1: "count_list (rotate1 xs) x = count_list xs x"
  by (cases xs) simp_all

lemma count_list_rotate: "count_list (rotate n xs) x = count_list xs x"
  by (induction n) (simp_all add: count_list_rotate1)

lemma length_names_distinct:
  assumes "distinct (map fst u)" "set p = set u"
  shows "length_names p = map fst (unique_vne_list p)"
proof -
  have "inj_on fst (set u)" using assms(1) by (simp add: distinct_map)
  then have "inj_on fst (set (unique_vne_list p))" by (simp add: set_unique_vne_list assms(2))
  then have "distinct (map fst (unique_vne_list p))"
    by (simp add: distinct_map distinct_unique_vne_list)
  then show ?thesis by (simp add: length_names_def distinct_remdups_id)
qed

lemma zip_map_same: "zip (map f xs) (map h xs) = map (\<lambda>x. (f x, h x)) xs"
  by (induction xs) simp_all

lemma total_base_len_uniform:
  assumes "length_names p = map fst (unique_vne_list p)" "\<forall>x\<in>set p. count_list p x = c"
  shows "total_base_len g p
       = Inr (c * sum_list (map (\<lambda>x. len_of g (fst x)) (unique_vne_list p)))"
proof -
  have "map (\<lambda>(x, y). x * y)
          (zip (map (len_of g) (map fst (unique_vne_list p))) (map (count_list p) (unique_vne_list p)))
      = map (\<lambda>x. len_of g (fst x) * count_list p x) (unique_vne_list p)"
    by (simp add: zip_map_same o_def)
  also have "\<dots> = map (\<lambda>x. c * len_of g (fst x)) (unique_vne_list p)"
    using assms(2) by (intro map_cong) (auto simp: set_unique_vne_list)
  finally have e: "map (\<lambda>(x, y). x * y)
          (zip (map (len_of g) (map fst (unique_vne_list p))) (map (count_list p) (unique_vne_list p)))
      = map (\<lambda>x. c * len_of g (fst x)) (unique_vne_list p)" .
  show ?thesis
    unfolding total_base_len_def v_lengths_array_def assms(1) np_mul_def e
    by (simp add: sum_list_const_mult)
qed

lemma variants_shared_repeated:
  assumes "0 < m" "\<forall>x\<in>set p. count_list r x = 1"
  shows "variants_shared p (replicate m r) = map (\<lambda>x. 1) (unique_vne_list p)"
  unfolding variants_shared_def using assms
  by (intro map_cong) (auto simp: set_unique_vne_list)

lemma shared_len_repeated:
  assumes "length_names p = map fst (unique_vne_list p)"
    "variants_shared p units = map (\<lambda>x. 1) (unique_vne_list p)"
  shows "shared_len g p base_len num_units units
       = Inr (real (num_units * sum_list (map (\<lambda>x. len_of g (fst x)) (unique_vne_list p)))
              / real base_len)"
  unfolding shared_len_def v_lengths_array_def assms np_mul_def
  by (simp add: zip_map_same o_def)

lemma sort_replicate: "sort (replicate m (c :: path)) = replicate m c"
  by (simp add: sorted_sort_id sorted_replicate)

lemma schemes_of_starts_same:
  assumes "\<forall>e\<in>set es. shared_len g p base_len num_units (units_of p (snd e)) = Inr sl
             \<and> sort (map canon (units_of p (snd e))) = scheme"
  shows "schemes_of_starts g canon p base_len num_units es q
       = Inr (if es \<noteq> [] \<and> sl > min_unit_similarity g \<and> scheme \<notin> set q
              then q @ [scheme] else q)"
  using assms
proof (induction es arbitrary: q)
  case Nil
  then show ?case by simp
next
  case (Cons e es)
  obtain start_n_e s_indices where e: "e = (start_n_e, s_indices)" by (cases e)
  have h: "shared_len g p base_len num_units (units_of p s_indices) = Inr sl"
    "sort (map canon (units_of p s_indices)) = scheme"
    using Cons.prems e by auto
  have r: "\<forall>e\<in>set es. shared_len g p base_len num_units (units_of p (snd e)) = Inr sl
             \<and> sort (map canon (units_of p (snd e))) = scheme"
    using Cons.prems by simp
  show ?case
    unfolding e schemes_of_starts.simps Let_def h Cons.IH[OF r]
    by (cases "es = []") auto
qed

lemma drop_consecutive_subset: "set (drop_consecutive n keep step xs) \<subseteq> set xs"
proof (induction xs arbitrary: keep step)
  case Nil
  then show ?case by simp
next
  case (Cons c rest)
  have a: "set (drop_consecutive n keep (step + 1) rest) \<subseteq> set rest" by (rule Cons.IH)
  have b: "set (drop_consecutive n c 1 rest) \<subseteq> set rest" by (rule Cons.IH)
  show ?case
    using a b
    by (cases "list_all (\<lambda>(k_id, c_id). (k_id + step) mod n = c_id) (zip (snd keep) (snd c))")
       (simp_all add: subset_insertI2)
qed

lemma real_div_same: "0 < (n :: nat) \<Longrightarrow> real n / real n = 1"
  by simp

lemma sum_list_pos_fst:
  fixes xs :: "vne list"
  assumes "xs \<noteq> []" "\<forall>x\<in>set xs. 0 < len_of g (fst x)"
  shows "0 < sum_list (map (\<lambda>x. len_of g (fst x)) xs)"
  using assms by (induction xs) auto

lemma kept_sne_indices_props:
  assumes "candidate_starts g p num_units \<noteq> []"
  shows "kept_sne_indices g p num_units \<noteq> []"
    and "set (kept_sne_indices g p num_units)
         \<subseteq> (\<lambda>s. (s, occurrences p s)) ` set (candidate_starts g p num_units)"
proof -
  let ?S = "sorted_sne_indices g p num_units"
  let ?K = "hd ?S # drop_consecutive (length p) (hd ?S) 1 (tl ?S)"
  have "length ?S = length (candidate_starts g p num_units)" by (simp add: sorted_sne_indices_def)
  then have ne: "?S \<noteq> []" using assms by auto
  have st: "set ?S = (\<lambda>s. (s, occurrences p s)) ` set (candidate_starts g p num_units)"
    by (simp add: sorted_sne_indices_def)
  have "set (drop_consecutive (length p) (hd ?S) 1 (tl ?S)) \<subseteq> set (tl ?S)"
    by (rule drop_consecutive_subset)
  also have "\<dots> \<subseteq> set ?S" using ne by (cases ?S) auto
  finally have k: "set ?K \<subseteq> set ?S" using ne by simp
  have t: "set (tl ?K) \<subseteq> set ?S" using k by auto
  show "kept_sne_indices g p num_units \<noteq> []"
    unfolding kept_sne_indices_def Let_def
    by (cases "drop_consecutive (length p) (hd ?S) 1 (tl ?S)") auto
  show "set (kept_sne_indices g p num_units)
         \<subseteq> (\<lambda>s. (s, occurrences p s)) ` set (candidate_starts g p num_units)"
    unfolding kept_sne_indices_def Let_def st[symmetric] using k t by (simp del: list.sel)
qed

lemma candidate_starts_uniform:
  assumes "p \<noteq> []" "\<forall>x\<in>set p. count_list p x = c"
  shows "candidate_starts g p c \<noteq> []" "set (candidate_starts g p c) \<subseteq> set p"
proof -
  have ne: "unique_vne_list p \<noteq> []" using assms(1) by (simp add: unique_vne_list_Nil)
  show "candidate_starts g p c \<noteq> []"
    using ne by (auto simp: candidate_starts_def Let_def uniform_copies(2)[OF assms])
  show "set (candidate_starts g p c) \<subseteq> set p"
    by (auto simp: candidate_starts_def Let_def uniform_copies(2)[OF assms] set_unique_vne_list)
qed

lemma select_units_single:
  "scheme \<noteq> [] \<Longrightarrow>
   select_units sub_paths p [scheme] = (if loses_no_sub_path sub_paths p scheme then scheme else [p])"
  by (simp add: select_units_def collect_units_filter)

lemma select_units_none: "select_units sub_paths p [] = [p]"
  by (simp add: select_units_def)

text \<open>The decomposer on repetitions of a unit whose contigs all differ.\<close>

lemma decompose_repeated:
  assumes d: "distinct (map fst u)"
    and ing: "\<forall>x\<in>set u. map_of (vertex_info g) (fst x) \<noteq> None"
    and pos: "\<forall>x\<in>set u. 0 < len_of g (fst x)"
    and m: "2 \<le> m" and len: "4 \<le> m * length u"
    and canon: "\<forall>i. canon (rotate i u) = canon u"
  shows "decompose_hetero_units g canon sub_paths (concat (replicate m u))
       = Inr (if min_unit_similarity g < 1
                \<and> loses_no_sub_path sub_paths (concat (replicate m u)) (replicate m (canon u))
              then replicate m (canon u) else [concat (replicate m u)])"
proof -
  let ?p = "concat (replicate m u)"
  let ?U = "unique_vne_list ?p"
  let ?L = "sum_list (map (\<lambda>x. len_of g (fst x)) ?U)"
  let ?S0 = "replicate m (canon u)"
  have m0: "0 < m" using m by simp
  have du: "distinct u" using d by (simp add: distinct_map)
  have sp: "set ?p = set u" using m0 by (rule set_concat_replicate)
  have une: "u \<noteq> []" using len by auto
  have pne: "?p \<noteq> []" using sp une by (metis set_empty)
  have uni: "\<forall>x\<in>set ?p. count_list ?p x = m" by (rule repeated_uniform[OF du m0])
  have ing': "\<forall>x\<in>set ?p. map_of (vertex_info g) (fst x) \<noteq> None" using ing sp by simp
  have pos': "\<forall>x\<in>set ?p. 0 < len_of g (fst x)" using pos sp by simp
  have l4: "\<not> length ?p < 4" using len by (simp add: length_concat_replicate)
  have cnu: "candidate_num_units g ?p = Inr (if min_unit_similarity g \<le> 1 then [m] else [])"
    using uniform_candidate_num_units[OF pne uni ing' pos'] m by simp
  show ?thesis
  proof (cases "min_unit_similarity g \<le> 1")
    case False
    then show ?thesis using l4 cnu by (simp add: decompose_hetero_units_def)
  next
    case True
    have ln: "length_names ?p = map fst ?U" by (rule length_names_distinct[OF d sp])
    have tbl: "total_base_len g ?p = Inr (m * ?L)" by (rule total_base_len_uniform[OF ln uni])
    have Une: "?U \<noteq> []" using pne by (simp add: unique_vne_list_Nil)
    have "\<forall>x\<in>set ?U. 0 < len_of g (fst x)" using pos' by (simp add: set_unique_vne_list)
    then have Lpos: "0 < ?L" by (rule sum_list_pos_fst[OF Une])
    have cs: "candidate_starts g ?p m \<noteq> []" "set (candidate_starts g ?p m) \<subseteq> set ?p"
      by (rule candidate_starts_uniform[OF pne uni])+
    note kp = kept_sne_indices_props[OF cs(1)]
    have each: "\<forall>e\<in>set (kept_sne_indices g ?p m).
        shared_len g ?p (m * ?L) m (units_of ?p (snd e)) = Inr 1
        \<and> sort (map canon (units_of ?p (snd e))) = ?S0"
    proof
      fix e assume "e \<in> set (kept_sne_indices g ?p m)"
      then have "e \<in> (\<lambda>s. (s, occurrences ?p s)) ` set (candidate_starts g ?p m)"
        using kp(2) by blast
      then obtain s where s0: "s \<in> set (candidate_starts g ?p m)" "e = (s, occurrences ?p s)"
        by blast
      have s: "s \<in> set u" "snd e = occurrences ?p s"
        using s0 cs(2) sp by (blast, simp)
      then obtain i where i: "i < length u" "s = u ! i" by (auto simp: in_set_conv_nth)
      have un: "units_of ?p (snd e) = replicate m (rotate i u)"
        unfolding s(2) i(2) occurrences_repeated[OF du i(1)] by (rule units_of_repeated[OF i(1) m0])
      have "\<forall>x\<in>set ?p. count_list (rotate i u) x = 1"
        using sp du by (simp add: count_list_rotate distinct_count_list)
      then have vs: "variants_shared ?p (replicate m (rotate i u)) = map (\<lambda>x. 1) ?U"
        by (rule variants_shared_repeated[OF m0])
      have "0 < m * ?L" using m0 Lpos by (rule mult_pos_pos)
      then have "real (m * ?L) / real (m * ?L) = 1" by (rule real_div_same)
      then have a: "shared_len g ?p (m * ?L) m (units_of ?p (snd e)) = Inr 1"
        unfolding un shared_len_repeated[OF ln vs] by simp
      have b: "sort (map canon (units_of ?p (snd e))) = ?S0"
        unfolding un using canon by (simp add: sort_replicate)
      show "shared_len g ?p (m * ?L) m (units_of ?p (snd e)) = Inr 1
        \<and> sort (map canon (units_of ?p (snd e))) = ?S0" using a b by simp
    qed
    have qs: "qualified_schemes g canon ?p (m * ?L) [m] []
            = Inr (if min_unit_similarity g < 1 then [?S0] else [])"
      using kp(1) by (simp add: schemes_of_starts_same[OF each])
    have S0ne: "?S0 \<noteq> []" using m0 by simp
    show ?thesis
      unfolding decompose_hetero_units_def using l4 True cnu tbl qs
      by (simp add: select_units_single[OF S0ne] select_units_none del: qualified_schemes.simps)
  qed
qed

text \<open>The standard form of a circular path does not depend on where the path starts.\<close>

lemma rotations_set:
  assumes "q \<noteq> []"
  shows "set (map (\<lambda>i. rotate i q) [0..<length q]) = range (\<lambda>i. rotate i q)"
proof (intro set_eqI iffI)
  fix x assume "x \<in> set (map (\<lambda>i. rotate i q) [0..<length q])"
  then show "x \<in> range (\<lambda>i. rotate i q)" by auto
next
  fix x assume "x \<in> range (\<lambda>i. rotate i q)"
  then obtain i where "x = rotate i q" by auto
  then have "x = rotate (i mod length q) q" by (simp add: rotate_conv_mod[symmetric])
  moreover have "i mod length q < length q" using assms by simp
  ultimately show "x \<in> set (map (\<lambda>i. rotate i q) [0..<length q])" by auto
qed

lemma rotations_rotate: "range (\<lambda>j. rotate j (rotate i p)) = range (\<lambda>j. rotate j p)"
proof (intro set_eqI iffI)
  fix x assume "x \<in> range (\<lambda>j. rotate j (rotate i p))"
  then obtain j where "x = rotate j (rotate i p)" by auto
  then have "x = rotate (j + i) p" by (simp add: rotate_rotate)
  then show "x \<in> range (\<lambda>j. rotate j p)" by auto
next
  fix x assume "x \<in> range (\<lambda>j. rotate j p)"
  then obtain j where j: "x = rotate j p" by auto
  show "x \<in> range (\<lambda>j. rotate j (rotate i p))"
  proof (cases "p = []")
    case True
    then show ?thesis using j by simp
  next
    case False
    then obtain n' where n': "length p = Suc n'" by (cases p) auto
    have e: "j + n' * i + i = j + length p * i" by (simp add: n')
    have "rotate (j + n' * i) (rotate i p) = rotate (j + n' * i + i) p"
      by (simp add: rotate_rotate)
    also have "\<dots> = rotate (j + length p * i) p" unfolding e ..
    also have "\<dots> = rotate j p"
      by (metis rotate_conv_mod mod_mult_self2)
    finally show ?thesis using j by (metis rangeI)
  qed
qed

lemma reverse_path_rotate:
  "\<exists>n. reverse_path (rotate i p) = rotate n (reverse_path p)"
proof -
  let ?q = "map (\<lambda>(v, e). (v, \<not> e)) p"
  let ?n = "length ?q - i mod length ?q"
  have "rotate ?n (rev ?q) = rev (rotate (length ?q - ?n mod length ?q) ?q)"
    by (rule rotate_rev)
  also have "rotate (length ?q - ?n mod length ?q) ?q = rotate i ?q"
  proof (cases "p = []")
    case True
    then show ?thesis by simp
  next
    case False
    then have l: "0 < length ?q" by simp
    show ?thesis
    proof (cases "i mod length ?q = 0")
      case True
      then have "length ?q - ?n mod length ?q = length ?q" by simp
      then show ?thesis using True by (metis rotate_conv_mod mod_self rotate_id)
    next
      case False
      then have "?n < length ?q" using l by simp
      then have "length ?q - ?n mod length ?q = i mod length ?q"
        using l by (simp add: less_imp_le_nat[OF mod_less_divisor])
      then show ?thesis by (metis rotate_conv_mod)
    qed
  qed
  finally have "reverse_path (rotate i p) = rotate ?n (reverse_path p)"
    by (simp add: reverse_path_def rotate_map)
  then show ?thesis by blast
qed

lemma sorted_hd_least: "sorted xs \<Longrightarrow> xs \<noteq> [] \<Longrightarrow> hd xs = Min (set xs)"
  by (cases xs) (auto intro!: Min_eqI[symmetric])

lemma hd_sort_Min:
  assumes "xs \<noteq> []"
  shows "hd (sort xs) = Min (set xs)"
proof -
  have "length (sort xs) = length xs" by simp
  then have "sort xs \<noteq> []" using assms by (metis length_0_conv)
  from sorted_hd_least[OF sorted_sort this] show ?thesis by simp
qed

lemma standardized_path_circ_rotate:
  "standardized_path_circ (rotate i p) = standardized_path_circ p"
proof (cases "p = []")
  case True
  then show ?thesis by (simp add: standardized_path_circ_def)
next
  case False
  obtain n where n: "reverse_path (rotate i p) = rotate n (reverse_path p)"
    using reverse_path_rotate by blast
  have rne: "reverse_path p \<noteq> []" using False by (simp add: reverse_path_def)
  have lr: "length (reverse_path p) = length p" by (simp add: reverse_path_def)
  have a: "set (map (\<lambda>j. rotate j (rotate i p)) [0..<length (rotate i p)])
         = set (map (\<lambda>j. rotate j p) [0..<length p])"
    using False by (simp only: rotations_set rotations_rotate rotate_is_Nil_conv simp_thms)
  have "set (map (\<lambda>j. rotate j (reverse_path (rotate i p))) [0..<length (reverse_path (rotate i p))])
      = range (\<lambda>j. rotate j (rotate n (reverse_path p)))"
    unfolding n using rne by (simp only: rotations_set rotate_is_Nil_conv simp_thms)
  also have "\<dots> = set (map (\<lambda>j. rotate j (reverse_path p)) [0..<length (reverse_path p)])"
    using rne by (simp only: rotations_set rotations_rotate simp_thms)
  finally have b: "set (map (\<lambda>j. rotate j (reverse_path (rotate i p))) [0..<length (rotate i p)])
         = set (map (\<lambda>j. rotate j (reverse_path p)) [0..<length p])"
    by (simp add: lr reverse_path_def)
  have ne1: "map (\<lambda>j. rotate j (rotate i p)) [0..<length (rotate i p)]
        @ map (\<lambda>j. rotate j (reverse_path (rotate i p))) [0..<length (rotate i p)] \<noteq> []"
    using False by simp
  have ne2: "map (\<lambda>j. rotate j p) [0..<length p]
        @ map (\<lambda>j. rotate j (reverse_path p)) [0..<length p] \<noteq> []"
    using False by simp
  show ?thesis
    unfolding standardized_path_circ_def hd_sort_Min[OF ne1] hd_sort_Min[OF ne2]
    using False a b by (simp only: set_append rotate_is_Nil_conv if_False)
qed

text \<open>Two copies of the unit through \<open>p\<close> of the example of five contigs.\<close>

lemma crpqs_unit_p_graph:
  "\<forall>x\<in>set unit_p. map_of (vertex_info homo_generator) (fst x) \<noteq> None
                    \<and> 0 < len_of homo_generator (fst x)"
  by (simp add: unit_p_def crpqs_lens crpqs_hg_fields graph_crpqs_def)

lemma crpqs_twice:
  "concat (replicate 2 unit_p) =
     [(''c'', False), (''s'', False), (''p'', False), (''r'', False),
      (''c'', False), (''s'', False), (''p'', False), (''r'', False)]"
  by (simp add: unit_p_def numeral_2_eq_2)

lemma crpqs_sp_twice:
  "read_sub_paths short_reads (concat (replicate 2 unit_p)) = read_sub_paths short_reads unit_p"
  unfolding crpqs_sp_p crpqs_twice
  unfolding read_sub_paths_def occurs_in_circle_def short_reads_def reverse_path_def
  by (simp add: crpqs_upts crpqs_rot8)

text \<open>
  C6 (as amended). A path of fewer than four contigs is returned unchanged, as the only
  element of the result. So is a path in which no oriented contig occurs twice, when
  its contigs are in the graph and have a positive length. For a unit \<open>u\<close> whose
  contigs all have different names, are in the graph and have a positive length, for
  \<open>m \<ge> 2\<close> copies that make at least four contigs, and a standard form \<open>canon\<close> of
  circular paths that is the same for every rotation of \<open>u\<close>: the decomposer, given
  the \<open>m\<close> copies of \<open>u\<close> one after the other, returns \<open>m\<close> times the standard form
  of \<open>u\<close> when the minimum unit similarity is below 1 and every sub-path of the whole
  path is a sub-path of the unit, and returns the whole path unchanged otherwise.
\<close>

theorem decompose_round_trip:
  "(length short < 4 \<longrightarrow> decompose_hetero_units g canon sub_paths short = Inr [short])
   \<and> (distinct p \<and> (\<forall>x\<in>set p. map_of (vertex_info g) (fst x) \<noteq> None \<and> 0 < len_of g (fst x))
      \<longrightarrow> decompose_hetero_units g canon sub_paths p = Inr [p])
   \<and> (distinct (map fst u)
        \<and> (\<forall>x\<in>set u. map_of (vertex_info g) (fst x) \<noteq> None \<and> 0 < len_of g (fst x))
        \<and> 2 \<le> m \<and> 4 \<le> m * length u \<and> (\<forall>i. canon (rotate i u) = canon u)
      \<longrightarrow> decompose_hetero_units g canon sub_paths (concat (replicate m u))
          = Inr (if min_unit_similarity g < 1
                   \<and> loses_no_sub_path sub_paths (concat (replicate m u)) (replicate m (canon u))
                 then replicate m (canon u) else [concat (replicate m u)]))"
proof (intro conjI impI)
  assume "length short < 4"
  then show "decompose_hetero_units g canon sub_paths short = Inr [short]"
    by (simp add: decompose_hetero_units_def)
next
  assume "distinct p \<and> (\<forall>x\<in>set p. map_of (vertex_info g) (fst x) \<noteq> None \<and> 0 < len_of g (fst x))"
  then show "decompose_hetero_units g canon sub_paths p = Inr [p]"
    by (intro decompose_distinct) auto
next
  assume "distinct (map fst u)
        \<and> (\<forall>x\<in>set u. map_of (vertex_info g) (fst x) \<noteq> None \<and> 0 < len_of g (fst x))
        \<and> 2 \<le> m \<and> 4 \<le> m * length u \<and> (\<forall>i. canon (rotate i u) = canon u)"
  then show "decompose_hetero_units g canon sub_paths (concat (replicate m u))
          = Inr (if min_unit_similarity g < 1
                   \<and> loses_no_sub_path sub_paths (concat (replicate m u)) (replicate m (canon u))
                 then replicate m (canon u) else [concat (replicate m u)])"
    by (intro decompose_repeated) auto
qed

text \<open>
  The theorem at the generator of the example of five contigs: a path of one contig,
  the unit through \<open>p\<close>, and two copies of that unit.
\<close>

theorem decompose_round_trip_witness:
  "decompose_hetero_units homo_generator standardized_path_circ (read_sub_paths short_reads)
      [(''c'', False)] = Inr [[(''c'', False)]]
   \<and> decompose_hetero_units homo_generator standardized_path_circ (read_sub_paths short_reads)
      unit_p = Inr [unit_p]
   \<and> decompose_hetero_units homo_generator standardized_path_circ (read_sub_paths short_reads)
      (concat (replicate 2 unit_p)) = Inr [unit_p, unit_p]"
proof -
  have d: "distinct unit_p" "distinct (map fst unit_p)" "length unit_p = 4"
    by (simp_all add: unit_p_def)
  have l: "loses_no_sub_path (read_sub_paths short_reads) (concat (replicate 2 unit_p))
             (replicate 2 unit_p)"
    unfolding loses_no_sub_path_def crpqs_sp_twice by (simp add: numeral_2_eq_2)
  show ?thesis
    using decompose_round_trip
      [of "[(''c'', False)]" homo_generator standardized_path_circ "read_sub_paths short_reads"
          unit_p unit_p 2]
      d crpqs_unit_p_graph l
    by (simp add: standardized_path_circ_rotate crpqs_std_p crpqs_hg_fields numeral_2_eq_2)
qed

text \<open>The examples of one contig and of the inverted repeat, evaluated.\<close>

lemma loop_fields:
  "vertex_info loop_generator = graph_loop" "min_unit_similarity loop_generator = 85 / 100"
  by (simp_all add: loop_generator_def default_generator_def use_contig_coverage_from_assembly_graph_def)

lemma loop_std: "standardized_path_circ [(''a'', False)] = [(''a'', False)]"
  by (simp add: standardized_path_circ_def reverse_path_def)

lemma loop_four:
  "decompose_hetero_units loop_generator standardized_path_circ (read_sub_paths [])
      (concat (replicate 4 [(''a'', False)])) = Inr (replicate 4 [(''a'', False)])"
proof -
  have a: "distinct (map fst [(''a'', False)])" by simp
  have b: "\<forall>x\<in>set [(''a'', False)]. map_of (vertex_info loop_generator) (fst x) \<noteq> None"
    by (simp add: loop_fields graph_loop_def)
  have c: "\<forall>x\<in>set [(''a'', False)]. 0 < len_of loop_generator (fst x)"
    by (simp add: len_of_def loop_fields graph_loop_def)
  have e: "\<forall>i. standardized_path_circ (rotate i [(''a'', False)]) = standardized_path_circ [(''a'', False)]"
    by (simp add: standardized_path_circ_rotate)
  have "decompose_hetero_units loop_generator standardized_path_circ (read_sub_paths [])
      (concat (replicate 4 [(''a'', False)]))
      = Inr (if min_unit_similarity loop_generator < 1
                \<and> loses_no_sub_path (read_sub_paths []) (concat (replicate 4 [(''a'', False)]))
                     (replicate 4 (standardized_path_circ [(''a'', False)]))
              then replicate 4 (standardized_path_circ [(''a'', False)])
              else [concat (replicate 4 [(''a'', False)])])"
    by (rule decompose_repeated[OF a b c _ _ e]) simp_all
  then show ?thesis
    by (simp add: loop_fields loop_std loses_no_sub_path_def read_sub_paths_def)
qed

lemma lis_fields:
  "vertex_info lis_generator = graph_lis" "min_unit_similarity lis_generator = 85 / 100"
  by (simp_all add: lis_generator_def estimate_single_copy_vertices_def default_generator_def
        use_contig_coverage_from_assembly_graph_def)

lemma lis_twice_list:
  "concat (replicate 2 unit_lis) =
     [(''l'', True), (''i'', True), (''s'', True), (''i'', False),
      (''l'', True), (''i'', True), (''s'', True), (''i'', False)]"
  by (simp add: unit_lis_def numeral_2_eq_2)

lemma lis_twice:
  "decompose_hetero_units lis_generator standardized_path_circ (read_sub_paths [])
      (concat (replicate 2 unit_lis)) = Inl ValueError"
proof -
  let ?p = "concat (replicate 2 unit_lis)"
  have d: "distinct unit_lis" by (simp add: unit_lis_def)
  have pne: "?p \<noteq> []" by (simp add: lis_twice_list)
  have uni: "\<forall>x\<in>set ?p. count_list ?p x = 2" by (rule repeated_uniform[OF d]) simp
  have sp: "set ?p = set unit_lis" by (rule set_concat_replicate) simp
  have ing: "\<forall>x\<in>set ?p. map_of (vertex_info lis_generator) (fst x) \<noteq> None"
    unfolding sp by (simp add: unit_lis_def lis_fields graph_lis_def)
  have pos: "\<forall>x\<in>set ?p. 0 < len_of lis_generator (fst x)"
    unfolding sp by (simp add: unit_lis_def len_of_def lis_fields graph_lis_def)
  have cnu: "candidate_num_units lis_generator ?p = Inr [2]"
    using uniform_candidate_num_units[OF pne uni ing pos] by (simp add: lis_fields)
  have u1: "unique_vne_list ?p = [(''i'', False), (''i'', True), (''l'', True), (''s'', True)]"
    unfolding lis_twice_list by (simp add: unique_vne_list_def)
  have ln: "length_names ?p = [''i'', ''l'', ''s'']"
    by (simp add: length_names_def u1)
  have tbl: "total_base_len lis_generator ?p = Inl ValueError"
    by (simp add: total_base_len_def v_lengths_array_def np_mul_def ln u1)
  have l8: "length ?p = 8" by (simp add: lis_twice_list)
  show ?thesis
    unfolding decompose_hetero_units_def l8 cnu tbl by simp
qed

text \<open>
  The claim as stated fails. The contig \<open>a\<close> alone is a circular unit, and two
  copies of it come back as one path of two contigs, not as two units, because of the
  test of line 371. Two copies of the unit that passes \<open>a\<close> twice come back as four
  units of one contig. And for two copies of the circular unit that passes the
  inverted repeat in both orientations, the product of the array of lengths (one entry
  for each name) and the array of copies (one entry for each oriented contig) raises
  at line 427.
\<close>

theorem decompose_round_trip_fails:
  "is_circular_path loop_generator [(''a'', False)]
   \<and> decompose_hetero_units loop_generator standardized_path_circ (read_sub_paths [])
        (concat (replicate 2 [(''a'', False)])) = Inr [[(''a'', False), (''a'', False)]]
   \<and> decompose_hetero_units loop_generator standardized_path_circ (read_sub_paths [])
        (concat (replicate 2 [(''a'', False), (''a'', False)]))
      = Inr [[(''a'', False)], [(''a'', False)], [(''a'', False)], [(''a'', False)]]
   \<and> is_circular_path lis_generator unit_lis
   \<and> decompose_hetero_units lis_generator standardized_path_circ (read_sub_paths [])
        (concat (replicate 2 unit_lis)) = Inl ValueError"
proof -
  have a: "is_circular_path loop_generator [(''a'', False)]"
    by (simp add: is_circular_path_def loop_fields graph_loop_def)
  have b: "decompose_hetero_units loop_generator standardized_path_circ (read_sub_paths [])
        (concat (replicate 2 [(''a'', False)])) = Inr [[(''a'', False), (''a'', False)]]"
    by (simp add: decompose_hetero_units_def numeral_2_eq_2)
  have e: "concat (replicate 2 [(''a'', False), (''a'', False)]) = concat (replicate 4 [(''a'', False)])"
    by (simp add: eval_nat_numeral)
  have c: "decompose_hetero_units loop_generator standardized_path_circ (read_sub_paths [])
        (concat (replicate 2 [(''a'', False), (''a'', False)]))
      = Inr [[(''a'', False)], [(''a'', False)], [(''a'', False)], [(''a'', False)]]"
    unfolding e loop_four by (simp add: eval_nat_numeral)
  have d: "is_circular_path lis_generator unit_lis"
    by (simp add: is_circular_path_def lis_fields graph_lis_def unit_lis_def)
  show ?thesis using a b c d lis_twice by simp
qed

subsection \<open>The catalog of the single-process search\<close>

lemma origin_insert_units:
  assumes "dom (variants_counts (self s)) = set (variants (self s))"
  shows "dom (variants_counts (self (insert_units us s))) = set (variants (self (insert_units us s)))
       \<and> set (variants (self (insert_units us s))) \<subseteq> set (variants (self s)) \<union> set us"
  using assms
proof (induction us arbitrary: s)
  case Nil
  then show ?case by simp
next
  case (Cons u us)
  let ?s' = "s\<lparr>count_valid := count_valid s + 1,
                valid_history := valid_history s @ [count_valid s + 1],
                self := insert_variant u (self s)\<rparr>"
  have d: "dom (variants_counts (self ?s')) = set (variants (self ?s'))"
    using Cons.prems by (auto simp: insert_variant_def split: option.splits)
  have v: "set (variants (self ?s')) = insert u (set (variants (self s)))"
    using insert_variant_set[OF Cons.prems] by simp
  show ?case
  proof (cases "count_valid ?s' = num_search (self ?s')")
    case True
    then show ?thesis using d v by (auto simp: Let_def)
  next
    case False
    from Cons.IH[OF d] show ?thesis using False v by (auto simp: Let_def)
  qed
qed

lemma uni_loop_origin:
  assumes "dom (variants_counts (self s)) = set (variants (self s))"
    and "\<forall>p\<in>set (variants (self s)). comes_from g circ full dec all_ts p"
    and "set ts \<subseteq> set all_ts"
    and "force_circular (self s) = force_circular g" "hetero_chromosome (self s) = hetero_chromosome g"
    and "uni_loop circ full dec ts s = Some (Inr s')"
  shows "\<forall>p\<in>set (variants (self s')). comes_from g circ full dec all_ts p"
  using assms
proof (induction ts arbitrary: s)
  case Nil
  then show ?case by (auto split: if_splits)
next
  case (Cons t ts)
  show ?case
  proof (cases "count_valid s < num_search (self s)")
    case False
    then show ?thesis using Cons.prems by auto
  next
    case True
    let ?s1 = "s\<lparr>count_search := count_search s + 1\<rparr>"
    have sub: "set ts \<subseteq> set all_ts" and tin: "t \<in> set all_ts" using Cons.prems(3) by auto
    show ?thesis
    proof (cases "(force_circular (self s) \<and> \<not> circ t) \<or> (\<not> hetero_chromosome (self s) \<and> \<not> full t)")
      case bad: True
      then have r: "uni_loop circ full dec ts ?s1 = Some (Inr s')"
        using Cons.prems(6) True by (simp add: Let_def)
      show ?thesis
        by (rule Cons.IH[OF _ _ sub _ _ r]) (use Cons.prems in auto)
    next
      case ok: False
      then obtain us where
        us: "(if circ t then dec t else Inr [t]) = Inr us"
        and r: "uni_loop circ full dec ts (insert_units us ?s1) = Some (Inr s')"
        using Cons.prems(6) True by (auto simp: Let_def split: sum.splits if_splits)
      have m: "meets_constraints g circ full t"
        using ok Cons.prems(4,5) by (auto simp: meets_constraints_def)
      have new: "\<forall>p\<in>set us. comes_from g circ full dec all_ts p"
        using us m tin by (auto simp: comes_from_def split: if_splits)
      have d1: "dom (variants_counts (self ?s1)) = set (variants (self ?s1))"
        using Cons.prems(1) by simp
      note iu = origin_insert_units[OF d1, of us]
      have a2: "\<forall>p\<in>set (variants (self (insert_units us ?s1))). comes_from g circ full dec all_ts p"
        using iu Cons.prems(2) new by auto
      show ?thesis
        by (rule Cons.IH[OF _ a2 sub _ _ r])
           (use iu Cons.prems(4,5) in \<open>auto simp: insert_units_fields\<close>)
    qed
  qed
qed

text \<open>The same for the workers of the multi-process search.\<close>

lemma worker_insert_origin:
  assumes "dom (shared_counts sh) = set (variant sh)"
  shows "dom (shared_counts (worker_insert g us sh)) = set (variant (worker_insert g us sh))
       \<and> set (variant (worker_insert g us sh)) \<subseteq> set (variant sh) \<union> set us"
  using assms
proof (induction us arbitrary: sh)
  case Nil
  then show ?case by simp
next
  case (Cons u us)
  show ?case
  proof (cases "g_count_valid sh \<ge> num_search g")
    case True
    then show ?thesis using Cons.prems by auto
  next
    case False
    let ?sh1 = "sh\<lparr>g_count_valid := g_count_valid sh + 1\<rparr>"
    let ?sh2 = "(case shared_counts ?sh1 u of
                Some c \<Rightarrow> ?sh1\<lparr>shared_counts := (shared_counts ?sh1)(u \<mapsto> c + 1)\<rparr>
              | None \<Rightarrow> ?sh1\<lparr>shared_counts := (shared_counts ?sh1)(u \<mapsto> 1),
                            variant := variant ?sh1 @ [u]\<rparr>)"
    have d: "dom (shared_counts ?sh2) = set (variant ?sh2)"
      using Cons.prems by (auto split: option.splits)
    have v: "set (variant ?sh2) = insert u (set (variant sh))"
      using Cons.prems by (auto split: option.splits)
    have e: "worker_insert g (u # us) sh = worker_insert g us ?sh2"
      using False by (simp add: Let_def)
    from Cons.IH[OF d] show ?thesis unfolding e using v by auto
  qed
qed

lemma worker_prepare_origin:
  assumes "worker_prepare g circ full dec t = Inr (invalid, us)" "t \<in> set all_ts"
  shows "\<forall>p\<in>set us. comes_from g circ full dec all_ts p"
proof (cases "(force_circular g \<and> \<not> circ t) \<or> (\<not> hetero_chromosome g \<and> \<not> full t)")
  case True
  then show ?thesis using assms(1) by (auto simp: worker_prepare_def Let_def)
next
  case False
  then have m: "meets_constraints g circ full t" by (auto simp: meets_constraints_def)
  from False assms(1) have us: "(if circ t then dec t else Inr [t]) = Inr us"
    by (auto simp: worker_prepare_def Let_def split: sum.splits if_splits)
  show ?thesis using us m assms(2) by (auto simp: comes_from_def split: if_splits)
qed

lemma worker_move_origin:
  assumes d: "dom (shared_counts sh) = set (variant sh)"
    and c: "\<forall>p\<in>set (variant sh). comes_from g circ full dec all_ts p"
    and w: "set (snd w) \<subseteq> set all_ts"
           "\<forall>invalid us. fst w = Before_lock invalid us \<longrightarrow> (\<forall>p\<in>set us. comes_from g circ full dec all_ts p)"
    and m: "worker_move g circ full dec w sh = (w', sh')"
  shows "dom (shared_counts sh') = set (variant sh')
       \<and> (\<forall>p\<in>set (variant sh'). comes_from g circ full dec all_ts p)
       \<and> set (snd w') \<subseteq> set all_ts
       \<and> (\<forall>invalid us. fst w' = Before_lock invalid us \<longrightarrow> (\<forall>p\<in>set us. comes_from g circ full dec all_ts p))"
proof (cases w)
  case (Pair pc ts)
  show ?thesis
  proof (cases pc)
    case At_loop_test
    show ?thesis
    proof (cases "g_count_valid sh < num_search g")
      case False
      then show ?thesis using m d c w Pair At_loop_test by (auto simp: worker_move_def)
    next
      case True
      show ?thesis
      proof (cases ts)
        case Nil
        then show ?thesis using m d c w Pair At_loop_test True by (auto simp: worker_move_def)
      next
        case (Cons t rest)
        have tin: "t \<in> set all_ts" and sub: "set rest \<subseteq> set all_ts"
          using w(1) Pair Cons by auto
        show ?thesis
        proof (cases "worker_prepare g circ full dec t")
          case (Inl e)
          then show ?thesis using m d c sub Pair At_loop_test True Cons
            by (auto simp: worker_move_def)
        next
          case (Inr r)
          obtain invalid us where r: "r = (invalid, us)" by (cases r)
          have "\<forall>p\<in>set us. comes_from g circ full dec all_ts p"
            using worker_prepare_origin[OF Inr[unfolded r] tin] .
          then show ?thesis using m d c sub Pair At_loop_test True Cons Inr r
            by (auto simp: worker_move_def)
        qed
      qed
    qed
  next
    case (Before_lock invalid us)
    have u: "\<forall>p\<in>set us. comes_from g circ full dec all_ts p"
      using w(2) Pair Before_lock by simp
    let ?sh1 = "sh\<lparr>g_count_search := g_count_search sh + 1\<rparr>"
    have d1: "dom (shared_counts ?sh1) = set (variant ?sh1)" using d by simp
    note wi = worker_insert_origin[OF d1, of g us]
    have sh': "sh' = (if invalid then ?sh1 else worker_insert g us ?sh1)" and w': "w' = (At_loop_test, ts)"
      using m Pair Before_lock by (auto simp: worker_move_def worker_commit_def Let_def)
    show ?thesis
    proof (cases invalid)
      case True
      then show ?thesis using sh' w' d c w(1) Pair by simp
    next
      case False
      then have "sh' = worker_insert g us ?sh1" using sh' by simp
      then show ?thesis using wi c u w' w(1) Pair by auto
    qed
  next
    case Returned
    then show ?thesis using m d c w Pair by (auto simp: worker_move_def)
  next
    case (Raised e)
    then show ?thesis using m d c w Pair by (auto simp: worker_move_def)
  qed
qed

lemma mp_run_origin:
  assumes "dom (shared_counts sh) = set (variant sh)"
    and "\<forall>p\<in>set (variant sh). comes_from g circ full dec all_ts p"
    and "\<forall>w\<in>set ws. set (snd w) \<subseteq> set all_ts
           \<and> (\<forall>invalid us. fst w = Before_lock invalid us \<longrightarrow> (\<forall>p\<in>set us. comes_from g circ full dec all_ts p))"
    and "mp_run g circ full dec schedule (ws, sh) = (ws', sh')"
  shows "dom (shared_counts sh') = set (variant sh')
       \<and> (\<forall>p\<in>set (variant sh'). comes_from g circ full dec all_ts p)"
  using assms
proof (induction schedule arbitrary: ws sh)
  case Nil
  then show ?case by simp
next
  case (Cons i schedule)
  show ?case
  proof (cases "i < length ws")
    case False
    then have "mp_run g circ full dec schedule (ws, sh) = (ws', sh')" using Cons.prems(4) by simp
    from Cons.IH[OF Cons.prems(1,2,3) this] show ?thesis .
  next
    case True
    obtain w1 sh1 where mv: "worker_move g circ full dec (ws ! i) sh = (w1, sh1)"
      by (cases "worker_move g circ full dec (ws ! i) sh")
    have r: "mp_run g circ full dec schedule (ws[i := w1], sh1) = (ws', sh')"
      using Cons.prems(4) True mv by simp
    have wi: "set (snd (ws ! i)) \<subseteq> set all_ts"
      "\<forall>invalid us. fst (ws ! i) = Before_lock invalid us \<longrightarrow> (\<forall>p\<in>set us. comes_from g circ full dec all_ts p)"
      using Cons.prems(3) True nth_mem by blast+
    note st = worker_move_origin[OF Cons.prems(1,2) wi mv]
    have ws1: "\<forall>w\<in>set (ws[i := w1]). set (snd w) \<subseteq> set all_ts
           \<and> (\<forall>invalid us. fst w = Before_lock invalid us \<longrightarrow> (\<forall>p\<in>set us. comes_from g circ full dec all_ts p))"
    proof
      fix w assume "w \<in> set (ws[i := w1])"
      then have "w = w1 \<or> w \<in> set ws" using set_update_subset_insert by fastforce
      then show "set (snd w) \<subseteq> set all_ts
           \<and> (\<forall>invalid us. fst w = Before_lock invalid us \<longrightarrow> (\<forall>p\<in>set us. comes_from g circ full dec all_ts p))"
        using st Cons.prems(3) by blast
    qed
    show ?thesis
      by (rule Cons.IH[OF _ _ ws1 r]) (use st in auto)
  qed
qed

lemma mp_start_origin:
  assumes "mp_run g circ full dec schedule (mp_start oracles) = (ws, sh)"
  shows "dom (shared_counts sh) = set (variant sh)
       \<and> (\<forall>p\<in>set (variant sh). comes_from g circ full dec (concat oracles) p)"
  by (rule mp_run_origin[OF _ _ _ assms[unfolded mp_start_def]]) auto

lemma crpqs_prepare:
  "worker_prepare homo_generator (is_circular_path homo_generator) (is_fully_covered_by homo_generator)
        (decompose_hetero_units homo_generator standardized_path_circ (read_sub_paths short_reads))
        canon_path = Inr (False, [unit_p, unit_q])"
  by (simp add: worker_prepare_def crpqs_hg_fields crpqs_circ_long crpqs_full_long crpqs_dec)

lemma crpqs_mp_run:
  "mp_run homo_generator (is_circular_path homo_generator) (is_fully_covered_by homo_generator)
        (decompose_hetero_units homo_generator standardized_path_circ (read_sub_paths short_reads))
        [0, 1, 0, 1] (mp_start [[canon_path], [canon_path]])
   = ([(At_loop_test, []), (At_loop_test, [])],
      \<lparr>variant = [unit_p, unit_q], shared_counts = [unit_p \<mapsto> 1, unit_q \<mapsto> 1],
       g_count_search = 2, g_count_valid = 2, event_set = True\<rparr>)"
  by (simp add: mp_start_def worker_move_def crpqs_prepare worker_commit_def crpqs_hg_fields
        crpqs_units_differ Let_def)


text \<open>
  C8 (as amended). Every path in the catalog comes from a traversal that satisfied
  the constraints of the run when it was filtered (circular if \<^verbatim>\<open>force_circular\<close>
  is set, covering the graph if heterogeneous chromosomes are not allowed): it is that
  traversal itself or, for a circular traversal, one of the units the decomposer
  returned for it. The units are not checked again. This holds for the catalog of a
  finished single-process search that started with an empty catalog, and for the
  shared catalog of the workers of the multi-process search after any number of
  their moves in any order, whose keys of the counts are the listed paths.
\<close>

theorem inserted_paths_come_from_valid_traversals:
  "(variants g = [] \<and> variants_counts g = Map.empty
      \<and> gen_heuristic_paths_uni is_circ is_full decompose traversals g = Some (Inr s)
    \<longrightarrow> (\<forall>p\<in>set (variants (self s)). comes_from g is_circ is_full decompose traversals p))
   \<and> (mp_run g is_circ is_full decompose schedule (mp_start oracles) = (ws, sh)
    \<longrightarrow> dom (variants_counts (mp_catalog g sh)) = set (variants (mp_catalog g sh))
       \<and> (\<forall>p\<in>set (variants (mp_catalog g sh)).
             comes_from g is_circ is_full decompose (concat oracles) p))"
proof (intro conjI impI)
  assume a: "variants g = [] \<and> variants_counts g = Map.empty
      \<and> gen_heuristic_paths_uni is_circ is_full decompose traversals g = Some (Inr s)"
  then have r: "uni_loop is_circ is_full decompose traversals
       \<lparr>self = g, count_search = 0, count_valid = 0, valid_history = []\<rparr> = Some (Inr s)"
    by (simp add: gen_heuristic_paths_uni_def)
  show "\<forall>p\<in>set (variants (self s)). comes_from g is_circ is_full decompose traversals p"
    by (rule uni_loop_origin[OF _ _ subset_refl _ _ r]) (use a in auto)
next
  assume "mp_run g is_circ is_full decompose schedule (mp_start oracles) = (ws, sh)"
  from mp_start_origin[OF this]
  show "dom (variants_counts (mp_catalog g sh)) = set (variants (mp_catalog g sh))"
    and "\<forall>p\<in>set (variants (mp_catalog g sh)).
             comes_from g is_circ is_full decompose (concat oracles) p"
    by (simp_all add: mp_catalog_def)
qed

text \<open>
  The theorem at the search over the example, whose one traversal gives two units, and
  at two workers that each hold that traversal and move in turn.
\<close>

theorem inserted_paths_come_from_valid_traversals_witness:
  "variants homo_generator = [] \<and> variants_counts homo_generator = Map.empty
   \<and> (\<exists>s. gen_heuristic_paths_uni (is_circular_path homo_generator) (is_fully_covered_by homo_generator)
        (decompose_hetero_units homo_generator standardized_path_circ (read_sub_paths short_reads))
        [canon_path] homo_generator = Some (Inr s)
      \<and> variants (self s) = [unit_p, unit_q])
   \<and> comes_from homo_generator (is_circular_path homo_generator) (is_fully_covered_by homo_generator)
        (decompose_hetero_units homo_generator standardized_path_circ (read_sub_paths short_reads))
        [canon_path] unit_p
   \<and> mp_run homo_generator (is_circular_path homo_generator) (is_fully_covered_by homo_generator)
        (decompose_hetero_units homo_generator standardized_path_circ (read_sub_paths short_reads))
        [0, 1, 0, 1] (mp_start [[canon_path], [canon_path]])
      = ([(At_loop_test, []), (At_loop_test, [])],
         \<lparr>variant = [unit_p, unit_q], shared_counts = [unit_p \<mapsto> 1, unit_q \<mapsto> 1],
          g_count_search = 2, g_count_valid = 2, event_set = True\<rparr>)
   \<and> comes_from homo_generator (is_circular_path homo_generator) (is_fully_covered_by homo_generator)
        (decompose_hetero_units homo_generator standardized_path_circ (read_sub_paths short_reads))
        (concat [[canon_path], [canon_path]]) unit_q"
proof -
  obtain s where
    r: "gen_heuristic_paths_uni (is_circular_path homo_generator) (is_fully_covered_by homo_generator)
        (decompose_hetero_units homo_generator standardized_path_circ (read_sub_paths short_reads))
        [canon_path] homo_generator = Some (Inr s)"
    and v: "variants (self s) = [unit_p, unit_q]"
    using crpqs_homo_run by blast
  show ?thesis
    using inserted_paths_come_from_valid_traversals
      [of homo_generator "is_circular_path homo_generator" "is_fully_covered_by homo_generator"
          "decompose_hetero_units homo_generator standardized_path_circ (read_sub_paths short_reads)"
          "[canon_path]" s "[0, 1, 0, 1]" "[[canon_path], [canon_path]]"
          "[(At_loop_test, []), (At_loop_test, [])]"
          "\<lparr>variant = [unit_p, unit_q], shared_counts = [unit_p \<mapsto> 1, unit_q \<mapsto> 1],
            g_count_search = 2, g_count_valid = 2, event_set = True\<rparr>"]
      r v crpqs_mp_run
    by (simp add: crpqs_hg_fields mp_catalog_def)
qed

text \<open>
  The claim as stated fails: heterogeneous chromosomes are not allowed in that search,
  the traversal covers the graph, and the catalog receives the unit through \<open>p\<close>,
  which does not contain the contig \<open>q\<close>.
\<close>

theorem decomposed_unit_not_fully_covering:
  "(case gen_heuristic_paths_uni (is_circular_path homo_generator) (is_fully_covered_by homo_generator)
        (decompose_hetero_units homo_generator standardized_path_circ (read_sub_paths short_reads))
        [canon_path] homo_generator of
      Some (Inr s) \<Rightarrow> variants (self s) = [unit_p, unit_q] \<and> \<not> hetero_chromosome (self s)
         \<and> \<not> is_fully_covered_by (self s) unit_p
    | _ \<Rightarrow> False)"
proof -
  obtain s where
    r: "gen_heuristic_paths_uni (is_circular_path homo_generator) (is_fully_covered_by homo_generator)
        (decompose_hetero_units homo_generator standardized_path_circ (read_sub_paths short_reads))
        [canon_path] homo_generator = Some (Inr s)"
    and v: "variants (self s) = [unit_p, unit_q]" "\<not> hetero_chromosome (self s)"
    using crpqs_homo_run by blast
  have "vertex_info (self s) = graph_crpqs"
    using r unfolding gen_heuristic_paths_uni_def
    by (auto simp: crpqs_hg_fields crpqs_circ_long crpqs_full_long crpqs_dec insert_variant_def crpqs_units_differ Let_def)
  then have "\<not> is_fully_covered_by (self s) unit_p"
    unfolding is_fully_covered_by_def by (simp add: unit_p_def graph_crpqs_def)
  then show ?thesis using r v by simp
qed

subsection \<open>The subpath index and the entry points\<close>

lemma fold_count_record_lengths:
  "fold (count_record std_path contain_path fbg) records (counter, paths, lens)
     = (counter', paths', lens') \<Longrightarrow>
   lens' = lens @ map p_align_len
       (filter (\<lambda>r. \<not> (fbg \<and> \<not> contain_path (std_path (gaf_path r)))) records)"
proof (induction records arbitrary: counter paths lens)
  case Nil
  then show ?case by simp
next
  case (Cons r records)
  obtain c1 p1 l1 where st: "count_record std_path contain_path fbg r (counter, paths, lens) = (c1, p1, l1)"
    by (cases "count_record std_path contain_path fbg r (counter, paths, lens)") auto
  have l1: "l1 = lens @ (if \<not> (fbg \<and> \<not> contain_path (std_path (gaf_path r))) then [p_align_len r] else [])"
    using st by (auto simp: count_record_def Let_def split: if_splits option.splits)
  have "fold (count_record std_path contain_path fbg) records (c1, p1, l1) = (counter', paths', lens')"
    using Cons.prems st by simp
  from Cons.IH[OF this] show ?case using l1 by simp
qed

lemma index_succeeds:
  assumes "\<exists>r\<in>set (alignment g). contain_path (std_path (gaf_path r))"
  shows "\<exists>g1. index_readpaths_subpaths std_path contain_path rev_path True g = Inr g1
           \<and> read_paths_counter_indexed g1"
proof -
  obtain counter paths lens where
    f: "fold (count_record std_path contain_path True) (alignment g) (Map.empty, read_paths g, [])
          = (counter, paths, lens)"
    by (cases "fold (count_record std_path contain_path True) (alignment g) (Map.empty, read_paths g, [])")
       auto
  have "lens = map p_align_len (filter (\<lambda>r. contain_path (std_path (gaf_path r))) (alignment g))"
    using fold_count_record_lengths[OF f] by simp
  then have ne: "lens \<noteq> []" using assms by (auto simp: filter_empty_conv)
  obtain st mi where
    t: "fold (index_read rev_path) (zip [0..<length paths] paths)
          (starting_subpath_to_readpaths g, middle_subpath_to_readpaths g) = (st, mi)"
    by (cases "fold (index_read rev_path) (zip [0..<length paths] paths)
          (starting_subpath_to_readpaths g, middle_subpath_to_readpaths g)") auto
  show ?thesis
    unfolding index_readpaths_subpaths_def f prod.case t using ne by simp
qed

lemma get_single_traversal_empty:
  "read_paths g = [] \<Longrightarrow> get_single_traversal choices rnd rev_path extend_path canon g = Inl IndexError"
  by (simp add: get_single_traversal_def)

lemma get_single_traversal_flag:
  "get_single_traversal choices rnd rev_path extend_path canon (g\<lparr>read_paths_counter_indexed := b\<rparr>)
     = get_single_traversal choices rnd rev_path extend_path canon g"
  by (simp add: get_single_traversal_def split: sum.splits)

lemma fresh_fields:
  "\<not> read_paths_counter_indexed fresh_generator" "num_processes fresh_generator = 1"
  "read_paths fresh_generator = []"
  "alignment fresh_generator = [\<lparr>gaf_path = [(''a'', True), (''b'', True)], p_align_len = 150\<rparr>]"
  by (simp_all add: fresh_generator_def default_generator_def
        use_contig_coverage_from_assembly_graph_def)

text \<open>
  C4 (as amended). No call fails on a check of the flag that marks the index as built.
  \<^verbatim>\<open>generate_heuristic_paths\<close>, called before the index has been built, builds it
  itself (when a record of the alignment lies in the graph, the indexing succeeds and
  sets the flag) and goes on to the search. \<^verbatim>\<open>get_single_traversal\<close> does not read the
  flag: it gives the same result whatever the flag says, and on a generator without
  read paths, as the constructor leaves it, it fails with the \<^verbatim>\<open>IndexError\<close> of the
  random choice from an empty list.
\<close>

theorem index_built_on_demand:
  "(\<not> read_paths_counter_indexed g \<and> 1 \<le> num_processes g \<and>
      (\<exists>r\<in>set (alignment g). contain_path (std_path (gaf_path r)))
     \<longrightarrow> (\<exists>g1. index_readpaths_subpaths std_path contain_path rev_path True g = Inr g1
              \<and> read_paths_counter_indexed g1
              \<and> generate_heuristic_paths std_path contain_path rev_path uni mp g None
                  = (if num_processes g = 1 then uni (prepare_coverages g1)
                     else mp (prepare_coverages g1) (num_processes g))))
   \<and> (read_paths g = []
        \<longrightarrow> get_single_traversal choices rnd rev_path extend_path canon g = Inl IndexError)
   \<and> get_single_traversal choices rnd rev_path extend_path canon (g\<lparr>read_paths_counter_indexed := b\<rparr>)
        = get_single_traversal choices rnd rev_path extend_path canon g"
proof (intro conjI impI)
  assume a: "\<not> read_paths_counter_indexed g \<and> 1 \<le> num_processes g \<and>
      (\<exists>r\<in>set (alignment g). contain_path (std_path (gaf_path r)))"
  then obtain g1 where
    i: "index_readpaths_subpaths std_path contain_path rev_path True g = Inr g1"
    and b: "read_paths_counter_indexed g1"
    using index_succeeds[of g contain_path std_path rev_path] by blast
  have "generate_heuristic_paths std_path contain_path rev_path uni mp g None
          = (if num_processes g = 1 then uni (prepare_coverages g1)
             else mp (prepare_coverages g1) (num_processes g))"
    using a i by (simp add: generate_heuristic_paths_def Let_def)
  then show "\<exists>g1. index_readpaths_subpaths std_path contain_path rev_path True g = Inr g1
              \<and> read_paths_counter_indexed g1
              \<and> generate_heuristic_paths std_path contain_path rev_path uni mp g None
                  = (if num_processes g = 1 then uni (prepare_coverages g1)
                     else mp (prepare_coverages g1) (num_processes g))"
    using i b by blast
next
  assume "read_paths g = []"
  then show "get_single_traversal choices rnd rev_path extend_path canon g = Inl IndexError"
    by (rule get_single_traversal_empty)
next
  show "get_single_traversal choices rnd rev_path extend_path canon (g\<lparr>read_paths_counter_indexed := b\<rparr>)
        = get_single_traversal choices rnd rev_path extend_path canon g"
    by (rule get_single_traversal_flag)
qed

text \<open>The theorem at a generator fresh from the constructor with one alignment record.\<close>

theorem index_built_on_demand_witness:
  "\<not> read_paths_counter_indexed fresh_generator \<and> 1 \<le> num_processes fresh_generator
   \<and> (\<exists>g1. index_readpaths_subpaths id (\<lambda>p. True) reverse_path True fresh_generator = Inr g1
          \<and> read_paths_counter_indexed g1
          \<and> generate_heuristic_paths id (\<lambda>p. True) reverse_path Inr (\<lambda>g n. Inr g) fresh_generator None
               = Inr (prepare_coverages g1))
   \<and> read_paths fresh_generator = []
   \<and> get_single_traversal (\<lambda>ps ws. hd ps) 0 reverse_path (\<lambda>p b. Inr p) id fresh_generator
       = Inl IndexError"
  using index_built_on_demand [of fresh_generator "\<lambda>p. True" id reverse_path Inr "\<lambda>g n. Inr g"
      "\<lambda>ps ws. hd ps" 0 "\<lambda>p b. Inr p" id True]
  by (simp add: fresh_fields)

text \<open>
  The claim as stated fails: called before the index has been built,
  \<^verbatim>\<open>generate_heuristic_paths\<close> raises no error; it hands an indexed generator to the
  search.
\<close>

theorem generate_before_index_does_not_fail:
  "(case generate_heuristic_paths id (\<lambda>p. True) reverse_path Inr (\<lambda>g n. Inr g) fresh_generator None of
      Inl e \<Rightarrow> False
    | Inr g \<Rightarrow> read_paths_counter_indexed g \<and> read_paths g = [[(''a'', True), (''b'', True)]])
   \<and> \<not> read_paths_counter_indexed fresh_generator"
  by (simp add: generate_heuristic_paths_def index_readpaths_subpaths_def count_record_def
        prepare_coverages_def estimate_single_copy_vertices_def
        use_contig_coverage_from_assembly_graph_def fresh_fields Let_def
        fresh_generator_def default_generator_def split: prod.splits)

end
